theory Spec2Isabelle
  imports Complex_Main "HOL-Library.Char_ord" "HOL-Library.List_Lexorder" "HOL-Library.Option_ord"
begin

section \<open>JavaScript values\<close>

text \<open>
  The values that travel through the editor and the engine are JSON-like. Numbers are
  IEEE doubles in the source; the model keeps a rational for every finite number and a
  separate constructor for NaN, which is all that copying and comparing values need.
\<close>

datatype jsval = JUndefined | JNull | JBool bool | JNum rat | JNaN | JStr string

type_synonym config = "(string \<times> jsval) list"

section \<open>Persisted records (the workflow as the API returns and accepts it)\<close>

record position =
  pos_x :: rat
  pos_y :: rat

record module_rec =
  m_id :: string
  m_type :: string
  m_name :: string
  m_config :: config
  m_position :: position

record connection =
  c_id :: string
  c_source :: string
  c_target :: string
  c_source_handle :: "string option"
  c_target_handle :: "string option"

record workflow =
  w_id :: string
  w_name :: string
  w_description :: "string option"
  w_modules :: "module_rec list"
  w_connections :: "connection list"

text \<open>A module type as \<open>GET /module-types\<close> returns it, with one entry of its config schema.\<close>

record field_schema =
  fs_type :: string
  fs_default :: jsval
  fs_enum :: "string list option"
  fs_min :: jsval
  fs_max :: jsval

record module_type_rec =
  mt_id :: string
  mt_name :: string
  mt_category :: string
  mt_description :: string
  mt_config_schema :: "(string \<times> field_schema) list option"

section \<open>The editor (src/frontend/src/App.js)\<close>

subsection \<open>Canvas state\<close>

record node_data =
  d_label :: string
  d_type :: string
  d_category :: string
  d_description :: "string option"
  d_config :: "config option"

record node =
  n_id :: string
  n_type :: string
  n_position :: position
  n_data :: node_data

record edge =
  e_id :: string
  e_source :: string
  e_target :: string
  e_sourceHandle :: "string option"
  e_targetHandle :: "string option"

record editor_state =
  nodes :: "node list"
  edges :: "edge list"
  moduleTypes :: "module_type_rec list"
  workflows :: "workflow list"
  selectedWorkflow :: "workflow option"
  workflowName :: string
  workflowDescription :: string
  showModulePanel :: bool
  selectedNode :: "node option"
  nodeConfig :: config
  showConfigPanel :: bool

subsection \<open>loadWorkflow\<close>

text \<open>
  \<open>moduleTypes.find(type => type.id === module.type)?.category || 'Unknown'\<close>: the
  category of the first module type with that id, and \<open>'Unknown'\<close> when there is none
  (or when its category is the empty string, which is falsy).
\<close>

definition category_of :: "module_type_rec list \<Rightarrow> string \<Rightarrow> string" where
  "category_of mts tid =
     (case find (\<lambda>t. mt_id t = tid) mts of
        None \<Rightarrow> ''Unknown''
      | Some t \<Rightarrow> if mt_category t = [] then ''Unknown'' else mt_category t)"

definition loadNode :: "module_type_rec list \<Rightarrow> module_rec \<Rightarrow> node" where
  "loadNode mts m =
     \<lparr>n_id = m_id m,
      n_type = ''custom'',
      n_position = m_position m,
      n_data = \<lparr>d_label = m_name m,
                d_type = m_type m,
                d_category = category_of mts (m_type m),
                d_description = None,
                d_config = Some (m_config m)\<rparr>\<rparr>"

definition loadEdge :: "connection \<Rightarrow> edge" where
  "loadEdge c =
     \<lparr>e_id = c_id c,
      e_source = c_source c,
      e_target = c_target c,
      e_sourceHandle = c_source_handle c,
      e_targetHandle = c_target_handle c\<rparr>"

text \<open>
  The response of \<open>GET /workflows/{id}\<close> is an argument: \<open>None\<close> is a failed request,
  which the \<open>catch\<close> only logs, leaving the state as it was.
\<close>

definition loadWorkflow :: "workflow option \<Rightarrow> editor_state \<Rightarrow> editor_state" where
  "loadWorkflow response st =
     (case response of
        None \<Rightarrow> st
      | Some w \<Rightarrow>
          st\<lparr>selectedWorkflow := Some w,
             workflowName := w_name w,
             workflowDescription := (case w_description w of None \<Rightarrow> [] | Some d \<Rightarrow> d),
             nodes := map (loadNode (moduleTypes st)) (w_modules w),
             edges := map loadEdge (w_connections w)\<rparr>)"

subsection \<open>saveWorkflow\<close>

text \<open>\<open>config: node.data.config || {}\<close>: an object is always truthy, also the empty one.\<close>

definition saveModule :: "node \<Rightarrow> module_rec" where
  "saveModule n =
     \<lparr>m_id = n_id n,
      m_type = d_type (n_data n),
      m_name = d_label (n_data n),
      m_config = (case d_config (n_data n) of None \<Rightarrow> [] | Some c \<Rightarrow> c),
      m_position = n_position n\<rparr>"

definition saveConnection :: "edge \<Rightarrow> connection" where
  "saveConnection e =
     \<lparr>c_id = e_id e,
      c_source = e_source e,
      c_target = e_target e,
      c_source_handle = e_sourceHandle e,
      c_target_handle = e_targetHandle e\<rparr>"

record workflowData =
  wd_name :: string
  wd_description :: string
  wd_modules :: "module_rec list"
  wd_connections :: "connection list"

definition saveWorkflow_data :: "editor_state \<Rightarrow> workflowData" where
  "saveWorkflow_data st =
     \<lparr>wd_name = workflowName st,
      wd_description = workflowDescription st,
      wd_modules = map saveModule (nodes st),
      wd_connections = map saveConnection (edges st)\<rparr>"

text \<open>The requests the editor sends, as data: the URL and the body.\<close>

datatype http_request =
    HttpPut string workflowData
  | HttpPostWorkflow string workflowData
  | HttpPostExecute string "(string \<times> jsval) list"

definition API :: "string \<Rightarrow> string" where
  "API backend_url = backend_url @ ''/api''"

text \<open>The request \<open>saveWorkflow\<close> sends first: an update of the selected workflow, or a create.\<close>

definition saveWorkflow :: "string \<Rightarrow> editor_state \<Rightarrow> http_request" where
  "saveWorkflow backend_url st =
     (case selectedWorkflow st of
        Some w \<Rightarrow> HttpPut (API backend_url @ ''/workflows/'' @ w_id w) (saveWorkflow_data st)
      | None \<Rightarrow> HttpPostWorkflow (API backend_url @ ''/workflows'') (saveWorkflow_data st))"

subsection \<open>executeWorkflow\<close>

text \<open>\<open>None\<close> is the early return without a selected workflow: no request is sent.\<close>

definition executeWorkflow :: "string \<Rightarrow> editor_state \<Rightarrow> http_request option" where
  "executeWorkflow backend_url st =
     (case selectedWorkflow st of
        None \<Rightarrow> None
      | Some w \<Rightarrow>
          (let inputs = []
           in Some (HttpPostExecute (API backend_url @ ''/workflows/'' @ w_id w @ ''/execute'') inputs)))"

fun request_inputs :: "http_request \<Rightarrow> (string \<times> jsval) list" where
  "request_inputs (HttpPostExecute url inputs) = inputs"
| "request_inputs (HttpPut url d) = []"
| "request_inputs (HttpPostWorkflow url d) = []"

subsection \<open>addModule\<close>

text \<open>
  \<open>rnd\<close> is \<open>Math.random().toString(36).substr(2, 9)\<close>, the draw of the environment:
  at most nine base-36 digits, and the empty string when the draw is 0.
\<close>

definition addModule :: "string \<Rightarrow> module_type_rec \<Rightarrow> editor_state \<Rightarrow> editor_state" where
  "addModule rnd moduleType st =
     (let newNode =
        \<lparr>n_id = ''node-'' @ rnd,
         n_type = ''custom'',
         n_position = \<lparr>pos_x = 100, pos_y = 100\<rparr>,
         n_data = \<lparr>d_label = mt_name moduleType,
                   d_type = mt_id moduleType,
                   d_category = mt_category moduleType,
                   d_description = Some (mt_description moduleType),
                   d_config = Some []\<rparr>\<rparr>
      in st\<lparr>nodes := nodes st @ [newNode], showModulePanel := False\<rparr>)"

section \<open>The execution engine: module executors\<close>

text \<open>
  The execution engine that the spec describes in sections 3 to 7 (validator, registry,
  graph builder, scheduler, executors, execute) is not in the source files. Every
  definition from here to the end of the scheduler section is modelled from the spec.
\<close>

text \<open>Modelled from the spec: the ExecutorError taxonomy of section 7.\<close>

datatype exec_error =
    ProviderError nat string
  | MissingCredentialsError
  | TimeoutError
  | MissingInputError
  | MissingRuntimeInput

text \<open>
  Modelled from the spec: what an executor returns (section 4.5): one value, or for a
  Logic module the branch it selected with the value sent down that branch.
\<close>

datatype exec_output = Value jsval | Branch string jsval

type_synonym inputs = "(string option \<times> jsval) list"

text \<open>
  Modelled from the spec: the inputs of an Input module (section 4.4): the runtime value
  bound to its id, if there is one.
\<close>

definition runtime_input :: "(string \<times> jsval) list \<Rightarrow> string \<Rightarrow> inputs" where
  "runtime_input runtimeInputs mid =
     (case map_of runtimeInputs mid of None \<Rightarrow> [] | Some v \<Rightarrow> [(None, v)])"

text \<open>
  Modelled from the spec: the Input executor of section 4.5, which is not in the source
  files. It returns the externally supplied runtime value bound to this module id, and
  fails with MissingRuntimeInput if none is supplied and no default is configured; the
  configured default is read from the field \<open>default\<close> of the module's config.
\<close>

definition execute_Input :: "config \<Rightarrow> inputs \<Rightarrow> exec_error + exec_output" where
  "execute_Input cfg ins =
     (case ins of
        (p, v) # rest \<Rightarrow> Inr (Value v)
      | [] \<Rightarrow> (case map_of cfg ''default'' of
                 Some d \<Rightarrow> Inr (Value d)
               | None \<Rightarrow> Inl MissingRuntimeInput))"

text \<open>
  Modelled from the spec: the Output executor of section 4.5, which is not in the source
  files. It is a passthrough: it stores its single input value as the module's result
  with no transformation, and fails with MissingInputError if no upstream value was
  produced.
\<close>

definition execute_Output :: "config \<Rightarrow> inputs \<Rightarrow> exec_error + exec_output" where
  "execute_Output cfg ins =
     (case ins of
        [] \<Rightarrow> Inl MissingInputError
      | (p, v) # rest \<Rightarrow> Inr (Value v))"

type_synonym ModuleExecutor = "config \<Rightarrow> inputs \<Rightarrow> exec_error + exec_output"

datatype category = Input | AIModel | Output | Logic

text \<open>
  Modelled from the spec: \<open>executorFor(category)\<close> of the Module Registry (section 4.2),
  which is not in the source files. The AI Model executor calls an external provider
  and the Logic executor evaluates a condition whose syntax the spec leaves open; both
  are arguments.
\<close>

definition executorFor :: "ModuleExecutor \<Rightarrow> ModuleExecutor \<Rightarrow> category \<Rightarrow> ModuleExecutor" where
  "executorFor ai logic cat =
     (case cat of
        Input \<Rightarrow> execute_Input
      | AIModel \<Rightarrow> ai
      | Output \<Rightarrow> execute_Output
      | Logic \<Rightarrow> logic)"

section \<open>The execution engine: config validation and the registry\<close>

text \<open>
  Modelled from the spec: the config schema of a module type (section 3): each field has
  a type (string, number or boolean), a default, and optionally an enum and a range; and
  the errors and warnings of the validator (section 4.1).
\<close>

datatype field_kind = FString | FNumber | FBoolean

record field_spec =
  f_kind :: field_kind
  f_default :: jsval
  f_enum :: "jsval list option"
  f_min :: "rat option"
  f_max :: "rat option"

datatype config_reason = TypeMismatch | InvalidEnumValue | OutOfRange

datatype config_error = ConfigError string config_reason

datatype config_warning = UnknownField string

record ValidatedConfig =
  vc_config :: config
  vc_warnings :: "config_warning list"

text \<open>
  Modelled from the spec: the checks of one value against its field (section 4.1), in the
  order of the spec: type, enum, range.
\<close>

fun has_kind :: "field_kind \<Rightarrow> jsval \<Rightarrow> bool" where
  "has_kind FString (JStr s) = True"
| "has_kind FNumber (JNum r) = True"
| "has_kind FBoolean (JBool b) = True"
| "has_kind k v = False"

definition out_of_range :: "field_spec \<Rightarrow> jsval \<Rightarrow> bool" where
  "out_of_range fs v =
     (case v of
        JNum r \<Rightarrow> (case f_min fs of None \<Rightarrow> False | Some lo \<Rightarrow> r < lo)
                  \<or> (case f_max fs of None \<Rightarrow> False | Some hi \<Rightarrow> hi < r)
      | _ \<Rightarrow> False)"

definition check_value :: "string \<Rightarrow> field_spec \<Rightarrow> jsval \<Rightarrow> config_error + jsval" where
  "check_value name fs v =
     (if \<not> has_kind (f_kind fs) v then Inl (ConfigError name TypeMismatch)
      else if (case f_enum fs of None \<Rightarrow> False | Some vs \<Rightarrow> v \<notin> set vs)
        then Inl (ConfigError name InvalidEnumValue)
      else if out_of_range fs v then Inl (ConfigError name OutOfRange)
      else Inr v)"

fun validate_fields :: "(string \<times> field_spec) list \<Rightarrow> config \<Rightarrow> config_error + config" where
  "validate_fields [] cfg = Inr []"
| "validate_fields ((name, fs) # rest) cfg =
     (case check_value name fs
             (case map_of cfg name of None \<Rightarrow> f_default fs | Some v \<Rightarrow> v) of
        Inl e \<Rightarrow> Inl e
      | Inr v \<Rightarrow>
          (case validate_fields rest cfg of
             Inl e \<Rightarrow> Inl e
           | Inr vs \<Rightarrow> Inr ((name, v) # vs)))"

text \<open>
  Modelled from the spec: \<open>validate(schema, config)\<close> of section 4.1, which is not in
  the source files. For each field of the schema, in order: an absent field takes the
  schema's default; a type mismatch, a value outside the enum and a number outside
  \<open>[min, max]\<close> fail with that field's ConfigError. Fields of the config that the schema
  does not have are passed through unchanged and flagged as UnknownField warnings.
\<close>

definition validate :: "(string \<times> field_spec) list \<Rightarrow> config \<Rightarrow> config_error + ValidatedConfig" where
  "validate schema cfg =
     (case validate_fields schema cfg of
        Inl e \<Rightarrow> Inl e
      | Inr vs \<Rightarrow>
          (let unknown = filter (\<lambda>(k, v). k \<notin> set (map fst schema)) cfg
           in Inr \<lparr>vc_config = vs @ unknown,
                   vc_warnings = map (\<lambda>(k, v). UnknownField k) unknown\<rparr>))"

text \<open>Modelled from the spec: the ModuleType of section 3.\<close>

record ModuleType =
  mtype_id :: string
  mtype_category :: category
  mtype_name :: string
  mtype_description :: string
  mtype_schema :: "(string \<times> field_spec) list"

type_synonym registry = "ModuleType list"

datatype registry_error = NotFoundError string

text \<open>
  Modelled from the spec: \<open>resolve(typeId)\<close> of the Module Registry (section 4.2), which
  is not in the source files; the registry is the static catalog, a list of module types.
\<close>

definition resolve :: "registry \<Rightarrow> string \<Rightarrow> registry_error + ModuleType" where
  "resolve reg typeId =
     (case find (\<lambda>t. mtype_id t = typeId) reg of
        None \<Rightarrow> Inl (NotFoundError typeId)
      | Some t \<Rightarrow> Inr t)"

section \<open>The execution engine: graph builder\<close>

text \<open>
  Modelled from the spec: the GraphErrors and the ExecutionGraph of section 4.3: an
  adjacency structure keyed by module id, each node with its incoming and outgoing
  connections.
\<close>

datatype graph_error =
    DanglingConnectionError string
  | UnknownModuleTypeError string string
  | FanInViolationError string "string option"
  | CycleDetectedError "string list"

record graph_node =
  gn_module :: module_rec
  gn_type :: ModuleType
  gn_config :: "config_error + ValidatedConfig"
  gn_incoming :: "connection list"
  gn_outgoing :: "connection list"

type_synonym ExecutionGraph = "graph_node list"

definition node_id :: "graph_node \<Rightarrow> string" where
  "node_id n = m_id (gn_module n)"

definition conn_edges :: "connection list \<Rightarrow> (string \<times> string) list" where
  "conn_edges cs = map (\<lambda>c. (c_source c, c_target c)) cs"

text \<open>
  Modelled from the spec: a node is ready when it has zero unresolved incoming
  dependencies (section 4.4): no edge leads to it from a node that is still waiting.
\<close>

definition ready :: "('a \<times> 'a) list \<Rightarrow> 'a list \<Rightarrow> 'a \<Rightarrow> bool" where
  "ready es remaining v = (\<forall>(s, t) \<in> set es. t = v \<longrightarrow> s \<notin> set remaining)"

text \<open>
  Modelled from the spec: Kahn's algorithm of section 4.4, which is not in the source
  files: repeated extraction of a node with zero unresolved incoming dependencies, ties
  among ready nodes broken by ascending id (module ids are strings, compared character
  by character). The result is the extraction order and the nodes that never became
  ready (none, when the graph is acyclic).
\<close>

function kahn :: "('a::linorder \<times> 'a) list \<Rightarrow> 'a list \<Rightarrow> 'a list \<times> 'a list" where
  "kahn es remaining =
     (case filter (ready es remaining) remaining of
        [] \<Rightarrow> ([], remaining)
      | r # rs \<Rightarrow>
          (let v = fold min rs r;
               (order, stuck) = kahn es (removeAll v remaining)
           in (v # order, stuck)))"
  by pat_completeness auto
termination
proof (relation "measure (\<lambda>(es, remaining). length remaining)")
  show "wf (measure (\<lambda>(es, remaining). length remaining))" by simp
next
  fix es :: "('a \<times> 'a) list" and remaining r rs v
  assume f: "filter (ready es remaining) remaining = r # rs" and v: "v = fold min rs r"
  have "v = Min (set (r # rs))" unfolding v by (simp only: Min.set_eq_fold)
  then have "v \<in> set (r # rs)" using Min_in [of "set (r # rs)"] by simp
  then have "v \<in> set (filter (ready es remaining) remaining)" by (simp only: f)
  then have "v \<in> set remaining" by simp
  then have "length (removeAll v remaining) < length remaining"
    by (rule length_removeAll_less)
  then show "((es, removeAll v remaining), (es, remaining))
      \<in> measure (\<lambda>(es, remaining). length remaining)"
    by simp
qed

text \<open>
  Modelled from the spec: the directed-cycle check of section 4.3, which reports the
  module ids of the offending cycle. It finds a cycle among the nodes that never became
  ready: each
  of them has a predecessor among them, so walking back from one of them along such
  predecessors must come to a node it has already visited; the walk from the first to
  the second visit is the cycle. The two branches that return the path unchanged (the
  fuel is used up, a node has no predecessor) are not reached on such a set of nodes.
\<close>

definition pred_in :: "('a \<times> 'a) list \<Rightarrow> 'a list \<Rightarrow> 'a \<Rightarrow> 'a option" where
  "pred_in es S v = map_option fst (find (\<lambda>(s, t). t = v \<and> s \<in> set S) es)"

fun walk_back :: "('a \<times> 'a) list \<Rightarrow> 'a list \<Rightarrow> nat \<Rightarrow> 'a list \<Rightarrow> 'a \<Rightarrow> 'a list" where
  "walk_back es S 0 path v = v # path"
| "walk_back es S (Suc n) path v =
     (if v \<in> set path then v # takeWhile (\<lambda>u. u \<noteq> v) path
      else case pred_in es S v of
             None \<Rightarrow> v # path
           | Some p \<Rightarrow> walk_back es S n (v # path) p)"

definition find_cycle :: "('a \<times> 'a) list \<Rightarrow> 'a list \<Rightarrow> 'a list" where
  "find_cycle es S = (case S of [] \<Rightarrow> [] | v # rest \<Rightarrow> walk_back es S (Suc (length S)) [] v)"

text \<open>
  A list of ids is a directed cycle when it is not empty and every id is connected to
  the next one, the last to the first.
\<close>

definition is_cycle :: "('a \<times> 'a) list \<Rightarrow> 'a list \<Rightarrow> bool" where
  "is_cycle es cyc = (cyc \<noteq> [] \<and> successively (\<lambda>a b. (a, b) \<in> set es) (cyc @ [hd cyc]))"

text \<open>
  Modelled from the spec: a connection is dangling when its source or its target is not
  a module id of the workflow (section 4.3).
\<close>

definition dangling :: "string list \<Rightarrow> connection \<Rightarrow> bool" where
  "dangling ids c = (c_source c \<notin> set ids \<or> c_target c \<notin> set ids)"

text \<open>
  Modelled from the spec: the fan-in of an input port (section 3): the number of
  connections into the port that \<open>c\<close> targets.
\<close>

definition fan_in :: "connection list \<Rightarrow> connection \<Rightarrow> nat" where
  "fan_in cs c =
     length (filter (\<lambda>d. c_target d = c_target c \<and> c_target_handle d = c_target_handle c) cs)"

text \<open>
  Modelled from the spec: the node of a module (section 4.3), with its incoming
  connections ordered by target port, and the nodes of all modules, failing on the first
  module whose type does not resolve.
\<close>

definition make_node :: "connection list \<Rightarrow> module_rec \<Rightarrow> ModuleType \<Rightarrow> graph_node" where
  "make_node cs m t =
     \<lparr>gn_module = m,
      gn_type = t,
      gn_config = validate (mtype_schema t) (m_config m),
      gn_incoming = sort_key c_target_handle (filter (\<lambda>c. c_target c = m_id m) cs),
      gn_outgoing = filter (\<lambda>c. c_source c = m_id m) cs\<rparr>"

fun build_nodes :: "registry \<Rightarrow> connection list \<Rightarrow> module_rec list \<Rightarrow> graph_error + graph_node list" where
  "build_nodes reg cs [] = Inr []"
| "build_nodes reg cs (m # ms) =
     (case resolve reg (m_type m) of
        Inl e \<Rightarrow> Inl (UnknownModuleTypeError (m_id m) (m_type m))
      | Inr t \<Rightarrow>
          (case build_nodes reg cs ms of
             Inl e \<Rightarrow> Inl e
           | Inr ns \<Rightarrow> Inr (make_node cs m t # ns)))"

text \<open>
  Modelled from the spec: \<open>build(workflow)\<close> of section 4.3, which is not in the source
  files. It validates in the order in which the spec lists the checks and returns the
  first error: every connection references existing module ids
  (DanglingConnectionError), every module's type resolves in the Registry
  (UnknownModuleTypeError), no input port receives more than one connection
  (FanInViolationError), the graph is acyclic (CycleDetectedError with the ids of a
  cycle). Each node of the graph records its module, its type, its validated config (or
  the ConfigError, which is fatal for that module's execution only), its incoming
  connections ordered by target port and its outgoing connections.
\<close>

definition build :: "registry \<Rightarrow> workflow \<Rightarrow> graph_error + ExecutionGraph" where
  "build reg w =
     (let ms = w_modules w; cs = w_connections w; ids = map m_id ms
      in case find (dangling ids) cs of
           Some c \<Rightarrow> Inl (DanglingConnectionError (c_id c))
         | None \<Rightarrow>
             (case build_nodes reg cs ms of
                Inl e \<Rightarrow> Inl e
              | Inr g \<Rightarrow>
                  (case find (\<lambda>c. 1 < fan_in cs c) cs of
                     Some c \<Rightarrow> Inl (FanInViolationError (c_target c) (c_target_handle c))
                   | None \<Rightarrow>
                       (case kahn (conn_edges cs) ids of
                          (order, []) \<Rightarrow> Inr g
                        | (order, s # stuck) \<Rightarrow>
                            Inl (CycleDetectedError (find_cycle (conn_edges cs) (s # stuck)))))))"

section \<open>The execution engine: scheduler\<close>

text \<open>
  Modelled from the spec: the status of a module in the RunResult (section 4.4):
  Succeeded, Failed with the error (of its executor or of its config), Skipped with the
  cause.
\<close>

datatype module_error = ExecutorFailure exec_error | ConfigFailure config_error

datatype skip_cause = upstreamFailure

datatype status = Succeeded | Failed module_error | Skipped skip_cause

text \<open>
  Modelled from the spec: the Execution Context of section 2, the state of one run: the
  output of every module that produced one, the
  status of every module processed so far, and the ids of the modules whose executor was
  invoked, in the order of the invocations.
\<close>

record ExecutionContext =
  ctx_outputs :: "string \<rightharpoonup> exec_output"
  ctx_status :: "string \<rightharpoonup> status"
  ctx_invoked :: "string list"

definition empty_context :: ExecutionContext where
  "empty_context = \<lparr>ctx_outputs = Map.empty, ctx_status = Map.empty, ctx_invoked = []\<rparr>"

text \<open>
  Modelled from the spec: the value a connection carries (sections 4.4 and 4.5): the
  output of its source module, if that module
  produced one; from a Logic module only the connections of the selected branch carry
  the value, the others are treated as not produced.
\<close>

definition resolve_conn :: "(string \<rightharpoonup> exec_output) \<Rightarrow> connection \<Rightarrow> jsval option" where
  "resolve_conn outs c =
     (case outs (c_source c) of
        None \<Rightarrow> None
      | Some (Value v) \<Rightarrow> Some v
      | Some (Branch b v) \<Rightarrow> if c_source_handle c = Some b then Some v else None)"

text \<open>
  Modelled from the spec: the inputs of a module (section 4.4): an Input module pulls
  from the runtime inputs, keyed by its id; any other module gets the values of its
  incoming connections, keyed by target port.
\<close>

definition gather :: "(string \<times> jsval) list \<Rightarrow> (string \<rightharpoonup> exec_output) \<Rightarrow> graph_node \<Rightarrow> inputs" where
  "gather runtimeInputs outs n =
     (if mtype_category (gn_type n) = Input then runtime_input runtimeInputs (node_id n)
      else concat (map (\<lambda>c. case resolve_conn outs c of
                                None \<Rightarrow> []
                              | Some v \<Rightarrow> [(c_target_handle c, v)])
                       (gn_incoming n)))"

text \<open>
  Modelled from the spec: what becomes of one module, given the outputs recorded so far
  (sections 4.4 and 7): \<open>None\<close> when an
  incoming connection carries no value (the module is skipped), otherwise the failure or
  the output of its execution. A module whose config did not validate fails with that
  ConfigError without its executor being invoked.
\<close>

definition evaluate ::
  "ModuleExecutor \<Rightarrow> ModuleExecutor \<Rightarrow> (string \<times> jsval) list \<Rightarrow> (string \<rightharpoonup> exec_output)
     \<Rightarrow> graph_node \<Rightarrow> (module_error + exec_output) option" where
  "evaluate ai logic runtimeInputs outs n =
     (if \<exists>c \<in> set (gn_incoming n). resolve_conn outs c = None then None
      else Some (case gn_config n of
                   Inl e \<Rightarrow> Inl (ConfigFailure e)
                 | Inr vc \<Rightarrow>
                     (case executorFor ai logic (mtype_category (gn_type n)) (vc_config vc)
                             (gather runtimeInputs outs n) of
                        Inl e \<Rightarrow> Inl (ExecutorFailure e)
                      | Inr out \<Rightarrow> Inr out)))"

text \<open>
  Reading what became of a module: its status, the output it recorded (if any), and
  whether its executor was invoked.
\<close>

fun status_of :: "(module_error + exec_output) option \<Rightarrow> status" where
  "status_of None = Skipped upstreamFailure"
| "status_of (Some (Inl e)) = Failed e"
| "status_of (Some (Inr out)) = Succeeded"

fun produced :: "(module_error + exec_output) option \<Rightarrow> exec_output option" where
  "produced (Some (Inr out)) = Some out"
| "produced r = None"

fun invokes :: "(module_error + exec_output) option \<Rightarrow> bool" where
  "invokes (Some (Inr out)) = True"
| "invokes (Some (Inl (ExecutorFailure e))) = True"
| "invokes r = False"

text \<open>
  Modelled from the spec: processing one module (section 4.4): the result is recorded in
  the execution context before the next module is taken.
\<close>

definition step ::
  "ModuleExecutor \<Rightarrow> ModuleExecutor \<Rightarrow> (string \<times> jsval) list \<Rightarrow> ExecutionContext \<Rightarrow> graph_node \<Rightarrow> ExecutionContext" where
  "step ai logic runtimeInputs ctx n =
     (case evaluate ai logic runtimeInputs (ctx_outputs ctx) n of
        None \<Rightarrow>
          ctx\<lparr>ctx_status := (ctx_status ctx)(node_id n \<mapsto> Skipped upstreamFailure)\<rparr>
      | Some (Inl (ConfigFailure e)) \<Rightarrow>
          ctx\<lparr>ctx_status := (ctx_status ctx)(node_id n \<mapsto> Failed (ConfigFailure e))\<rparr>
      | Some (Inl (ExecutorFailure e)) \<Rightarrow>
          ctx\<lparr>ctx_status := (ctx_status ctx)(node_id n \<mapsto> Failed (ExecutorFailure e)),
              ctx_invoked := ctx_invoked ctx @ [node_id n]\<rparr>
      | Some (Inr out) \<Rightarrow>
          ctx\<lparr>ctx_outputs := (ctx_outputs ctx)(node_id n \<mapsto> out),
              ctx_status := (ctx_status ctx)(node_id n \<mapsto> Succeeded),
              ctx_invoked := ctx_invoked ctx @ [node_id n]\<rparr>)"

text \<open>
  Modelled from the spec: the dependency edges of a graph, read off the incoming
  connections of its nodes, and the order in which run takes the modules.
\<close>

definition graph_edges :: "ExecutionGraph \<Rightarrow> (string \<times> string) list" where
  "graph_edges g = concat (map (\<lambda>n. map (\<lambda>c. (c_source c, node_id n)) (gn_incoming n)) g)"

definition schedule :: "ExecutionGraph \<Rightarrow> string list" where
  "schedule g = fst (kahn (graph_edges g) (map node_id g))"

definition step_id ::
  "ModuleExecutor \<Rightarrow> ModuleExecutor \<Rightarrow> (string \<times> jsval) list \<Rightarrow> ExecutionGraph \<Rightarrow> ExecutionContext \<Rightarrow> string \<Rightarrow> ExecutionContext" where
  "step_id ai logic runtimeInputs g ctx mid =
     (case find (\<lambda>n. node_id n = mid) g of
        None \<Rightarrow> ctx
      | Some n \<Rightarrow> step ai logic runtimeInputs ctx n)"

definition run_context ::
  "ModuleExecutor \<Rightarrow> ModuleExecutor \<Rightarrow> ExecutionGraph \<Rightarrow> (string \<times> jsval) list \<Rightarrow> ExecutionContext" where
  "run_context ai logic g runtimeInputs =
     foldl (step_id ai logic runtimeInputs g) empty_context (schedule g)"

text \<open>Modelled from the spec: the RunResult of section 4.4.\<close>

record RunResult =
  rr_outputs :: "string \<rightharpoonup> jsval"
  rr_statuses :: "string \<rightharpoonup> status"

fun output_value :: "exec_output \<Rightarrow> jsval" where
  "output_value (Value v) = v"
| "output_value (Branch b v) = v"

definition result_of :: "ExecutionGraph \<Rightarrow> ExecutionContext \<Rightarrow> RunResult" where
  "result_of g ctx =
     \<lparr>rr_outputs = (\<lambda>mid.
         case find (\<lambda>n. node_id n = mid) g of
           None \<Rightarrow> None
         | Some n \<Rightarrow>
             if mtype_category (gn_type n) = Output
             then map_option output_value (ctx_outputs ctx mid)
             else None),
      rr_statuses = ctx_status ctx\<rparr>"

text \<open>
  Modelled from the spec: \<open>run(graph, runtimeInputs)\<close> of section 4.4, which is not in
  the source files. The modules are processed in the order of Kahn's algorithm; each is
  skipped when an incoming connection carries no value, and otherwise executed and its
  result recorded before the next one. The RunResult maps every Output module that
  produced a value to it, and every module to its status.
\<close>

definition run ::
  "ModuleExecutor \<Rightarrow> ModuleExecutor \<Rightarrow> ExecutionGraph \<Rightarrow> (string \<times> jsval) list \<Rightarrow> RunResult" where
  "run ai logic g runtimeInputs = result_of g (run_context ai logic g runtimeInputs)"

text \<open>
  Modelled from the spec: the execute entry point of section 6, which is not in the
  source files, on the workflow the persistence collaborator has materialised. A
  GraphError is fatal: the call fails before any module runs. The first component is the
  list of executor invocations the call made, in order.
\<close>

definition execute_trace ::
  "ModuleExecutor \<Rightarrow> ModuleExecutor \<Rightarrow> registry \<Rightarrow> workflow \<Rightarrow> (string \<times> jsval) list
     \<Rightarrow> string list \<times> (graph_error + RunResult)" where
  "execute_trace ai logic reg w runtimeInputs =
     (case build reg w of
        Inl e \<Rightarrow> ([], Inl e)
      | Inr g \<Rightarrow>
          (let ctx = run_context ai logic g runtimeInputs
           in (ctx_invoked ctx, Inr (result_of g ctx))))"

definition execute ::
  "ModuleExecutor \<Rightarrow> ModuleExecutor \<Rightarrow> registry \<Rightarrow> workflow \<Rightarrow> (string \<times> jsval) list
     \<Rightarrow> graph_error + RunResult" where
  "execute ai logic reg w runtimeInputs = snd (execute_trace ai logic reg w runtimeInputs)"

section \<open>Notions used to state the properties\<close>

text \<open>\<open>a\<close> occurs in the list before the first occurrence of \<open>b\<close>.\<close>

definition before :: "'a list \<Rightarrow> 'a \<Rightarrow> 'a \<Rightarrow> bool" where
  "before xs a b = (b \<in> set xs \<and> a \<in> set (takeWhile (\<lambda>y. y \<noteq> b) xs))"

text \<open>
  An order puts sources first when every module comes after the source of each of its
  incoming connections.
\<close>

definition sources_first :: "ExecutionGraph \<Rightarrow> string list \<Rightarrow> bool" where
  "sources_first g order =
     (\<forall>pre m post n c. order = pre @ m # post \<longrightarrow> find (\<lambda>n. node_id n = m) g = Some n
        \<longrightarrow> c \<in> set (gn_incoming n) \<longrightarrow> c_source c \<in> set pre)"

text \<open>
  The three checks of build that come before the cycle check hold: no connection is
  dangling, every module type resolves, no input port receives two connections.
\<close>

definition passes_checks :: "registry \<Rightarrow> workflow \<Rightarrow> bool" where
  "passes_checks reg w =
     ((\<forall>c \<in> set (w_connections w). \<not> dangling (map m_id (w_modules w)) c)
      \<and> (\<forall>m \<in> set (w_modules w). \<not> isl (resolve reg (m_type m)))
      \<and> (\<forall>c \<in> set (w_connections w). fan_in (w_connections w) c \<le> 1))"


section \<open>Example data\<close>

definition origin :: position where
  "origin = \<lparr>pos_x = 0, pos_y = 0\<rparr>"

definition text_input_type :: module_type_rec where
  "text_input_type =
     \<lparr>mt_id = ''text-input'', mt_name = ''Text Input'', mt_category = ''Input'',
      mt_description = ''Free text'', mt_config_schema = None\<rparr>"

definition empty_editor :: editor_state where
  "empty_editor =
     \<lparr>nodes = [], edges = [], moduleTypes = [text_input_type], workflows = [],
      selectedWorkflow = None, workflowName = [], workflowDescription = [],
      showModulePanel = False, selectedNode = None, nodeConfig = [],
      showConfigPanel = False\<rparr>"

definition module_a :: module_rec where
  "module_a = \<lparr>m_id = ''a'', m_type = ''text-input'', m_name = ''A'', m_config = [],
                m_position = origin\<rparr>"

definition module_b :: module_rec where
  "module_b = \<lparr>m_id = ''b'', m_type = ''text-input'', m_name = ''B'', m_config = [],
                m_position = origin\<rparr>"

definition module_x :: module_rec where
  "module_x = \<lparr>m_id = ''x'', m_type = ''retired-type'', m_name = ''X'',
                m_config = [(''k'', JStr ''v'')], m_position = origin\<rparr>"

definition conn_a_x :: connection where
  "conn_a_x = \<lparr>c_id = ''c1'', c_source = ''a'', c_target = ''x'',
                c_source_handle = None, c_target_handle = Some ''in''\<rparr>"

definition conn_b_x :: connection where
  "conn_b_x = \<lparr>c_id = ''c2'', c_source = ''b'', c_target = ''x'',
                c_source_handle = None, c_target_handle = Some ''in''\<rparr>"

definition fan_in_workflow :: workflow where
  "fan_in_workflow =
     \<lparr>w_id = ''w1'', w_name = ''Fan-in'', w_description = None,
      w_modules = [module_a, module_b, module_x],
      w_connections = [conn_a_x, conn_b_x]\<rparr>"

definition input_type :: ModuleType where
  "input_type = \<lparr>mtype_id = ''text-input'', mtype_category = Input,
     mtype_name = ''Text Input'', mtype_description = ''Free text'', mtype_schema = []\<rparr>"

definition output_type :: ModuleType where
  "output_type = \<lparr>mtype_id = ''text-output'', mtype_category = Output,
     mtype_name = ''Text Output'', mtype_description = ''Shows text'', mtype_schema = []\<rparr>"

definition logic_type :: ModuleType where
  "logic_type = \<lparr>mtype_id = ''condition'', mtype_category = Logic,
     mtype_name = ''Condition'', mtype_description = ''Branches'', mtype_schema = []\<rparr>"

definition catalog :: registry where
  "catalog = [input_type, output_type, logic_type]"

definition plain_module :: "string \<Rightarrow> string \<Rightarrow> module_rec" where
  "plain_module mid tid =
     \<lparr>m_id = mid, m_type = tid, m_name = mid, m_config = [], m_position = origin\<rparr>"

definition wire :: "string \<Rightarrow> string \<Rightarrow> string option \<Rightarrow> string \<Rightarrow> connection" where
  "wire cid s port t =
     \<lparr>c_id = cid, c_source = s, c_target = t, c_source_handle = port, c_target_handle = None\<rparr>"

definition disjoint_workflow :: workflow where
  "disjoint_workflow =
     \<lparr>w_id = ''w2'', w_name = ''Two branches'', w_description = None,
      w_modules = [plain_module ''D'' ''text-output'', plain_module ''B'' ''text-output'',
                   plain_module ''C'' ''text-input'', plain_module ''A'' ''text-input''],
      w_connections = [wire ''e1'' ''A'' None ''B'', wire ''e2'' ''C'' None ''D'']\<rparr>"

definition disjoint_graph :: ExecutionGraph where
  "disjoint_graph =
     [make_node (w_connections disjoint_workflow) (plain_module ''D'' ''text-output'') output_type,
      make_node (w_connections disjoint_workflow) (plain_module ''B'' ''text-output'') output_type,
      make_node (w_connections disjoint_workflow) (plain_module ''C'' ''text-input'') input_type,
      make_node (w_connections disjoint_workflow) (plain_module ''A'' ''text-input'') input_type]"

definition cyclic_workflow :: workflow where
  "cyclic_workflow =
     \<lparr>w_id = ''w3'', w_name = ''Loop'', w_description = None,
      w_modules = [plain_module ''A'' ''text-input'', plain_module ''B'' ''text-output'',
                   plain_module ''C'' ''text-output''],
      w_connections = [wire ''e1'' ''B'' None ''C'', wire ''e2'' ''C'' None ''B'']\<rparr>"

definition branching_workflow :: workflow where
  "branching_workflow =
     \<lparr>w_id = ''w4'', w_name = ''Branch'', w_description = None,
      w_modules = [plain_module ''A'' ''text-input'', plain_module ''L'' ''condition'',
                   plain_module ''X'' ''text-output''],
      w_connections = [wire ''e1'' ''L'' (Some ''no'') ''X'']\<rparr>"


definition no_provider :: ModuleExecutor where
  "no_provider cfg ins = Inl MissingCredentialsError"

definition always_yes :: ModuleExecutor where
  "always_yes cfg ins = Inr (Branch ''yes'' (JBool True))"

definition input_only_workflow :: workflow where
  "input_only_workflow =
     \<lparr>w_id = ''w5'', w_name = ''Input only'', w_description = None,
      w_modules = [plain_module ''A'' ''text-input''], w_connections = []\<rparr>"

section \<open>Properties of the editor\<close>

lemma saveModule_loadNode: "saveModule (loadNode mts m) = m"
  by (simp add: saveModule_def loadNode_def)

lemma saveConnection_loadEdge: "saveConnection (loadEdge c) = c"
  by (simp add: saveConnection_def loadEdge_def)

lemma loadEdge_saveConnection: "loadEdge (saveConnection e) = e"
  by (simp add: saveConnection_def loadEdge_def)

lemma nodes_loadWorkflow:
  "nodes (loadWorkflow (Some w) st) = map (loadNode (moduleTypes st)) (w_modules w)"
  by (simp add: loadWorkflow_def)

lemma edges_loadWorkflow:
  "edges (loadWorkflow (Some w) st) = map loadEdge (w_connections w)"
  by (simp add: loadWorkflow_def)

text \<open>
  C8. Saving and loading round-trip. Loading a workflow into the editor and saving it
  again gives back every module record (id, type, name, config, position) and every
  connection record (id, source, target, source handle, target handle) unchanged, in the
  same order. In the other direction, saving a canvas node and loading the record gives
  a node with the same id, position, label, type and config (an unset config reads as
  the empty one, as everywhere in the editor), and every edge comes back unchanged.
\<close>

theorem save_load_roundtrip:
  "wd_modules (saveWorkflow_data (loadWorkflow (Some w) st)) = w_modules w
   \<and> wd_connections (saveWorkflow_data (loadWorkflow (Some w) st)) = w_connections w
   \<and> saveModule (loadNode mts m) = m
   \<and> saveConnection (loadEdge c) = c
   \<and> n_id (loadNode mts (saveModule n)) = n_id n
   \<and> n_position (loadNode mts (saveModule n)) = n_position n
   \<and> d_label (n_data (loadNode mts (saveModule n))) = d_label (n_data n)
   \<and> d_type (n_data (loadNode mts (saveModule n))) = d_type (n_data n)
   \<and> d_config (n_data (loadNode mts (saveModule n)))
       = Some (case d_config (n_data n) of None \<Rightarrow> [] | Some cfg \<Rightarrow> cfg)
   \<and> loadEdge (saveConnection e) = e"
proof -
  have "map saveModule (map (loadNode (moduleTypes st)) (w_modules w)) = w_modules w"
    by (induction "w_modules w" arbitrary: w) (simp_all add: saveModule_loadNode map_idI)
  moreover have "map saveConnection (map loadEdge (w_connections w)) = w_connections w"
    by (simp add: saveConnection_loadEdge map_idI)
  ultimately show ?thesis
    by (simp add: saveWorkflow_data_def nodes_loadWorkflow edges_loadWorkflow
        saveModule_loadNode saveConnection_loadEdge loadEdge_saveConnection)
      (simp add: loadNode_def saveModule_def)
qed

text \<open>
  C9. Adding a module and the uniqueness of ids. \<open>addModule\<close> does not compare the id it
  generates with the ids on the canvas, so uniqueness is kept exactly when the generated
  id is fresh: on a canvas whose ids are pairwise distinct, the ids after \<open>addModule\<close>
  are pairwise distinct if and only if \<open>'node-'\<close> followed by the random string is not
  the id of a node already there.
\<close>

theorem addModule_keeps_ids_distinct_iff_fresh:
  assumes "distinct (map n_id (nodes st))"
  shows "distinct (map n_id (nodes (addModule rnd moduleType st)))
         \<longleftrightarrow> ''node-'' @ rnd \<notin> set (map n_id (nodes st))"
  using assms by (auto simp: addModule_def Let_def)

theorem addModule_keeps_ids_distinct_witness:
  "distinct (map n_id (nodes (addModule ''k3x9'' text_input_type empty_editor)))
   \<and> distinct (map n_id (nodes (addModule ''07ab''
        text_input_type (addModule ''k3x9'' text_input_type empty_editor))))"
proof -
  have d0: "distinct (map n_id (nodes empty_editor))"
    by (simp add: empty_editor_def)
  have d1: "distinct (map n_id (nodes (addModule ''k3x9'' text_input_type empty_editor)))"
    using addModule_keeps_ids_distinct_iff_fresh [OF d0, of "''k3x9''" text_input_type]
    by (simp add: empty_editor_def)
  have "distinct (map n_id (nodes (addModule ''07ab''
        text_input_type (addModule ''k3x9'' text_input_type empty_editor))))"
    using addModule_keeps_ids_distinct_iff_fresh [OF d1, of "''07ab''" text_input_type]
    by (simp add: addModule_def empty_editor_def)
  with d1 show ?thesis by simp
qed

text \<open>
  The claim as stated fails when the random string repeats: the same draw twice gives two
  nodes with the id \<open>node-k3x9\<close>.
\<close>

theorem addModule_duplicate_id_counterexample:
  "distinct (map n_id (nodes (addModule ''k3x9'' text_input_type empty_editor)))
   \<and> \<not> distinct (map n_id (nodes (addModule ''k3x9''
        text_input_type (addModule ''k3x9'' text_input_type empty_editor))))"
  by (simp add: addModule_def empty_editor_def)

text \<open>
  C10. The run action supplies no runtime inputs. Whenever \<open>executeWorkflow\<close> sends a
  request, it is the POST to the selected workflow's execute endpoint with the empty
  mapping as body; so no module id is bound to a runtime value, and an Input module run
  on these bindings returns its configured default when it has one and fails with
  MissingRuntimeInput otherwise.
\<close>

theorem executeWorkflow_posts_empty_inputs:
  assumes "executeWorkflow backend_url st = Some req"
  shows "(\<exists>w. selectedWorkflow st = Some w
             \<and> req = HttpPostExecute (API backend_url @ ''/workflows/'' @ w_id w @ ''/execute'') [])
         \<and> request_inputs req = []
         \<and> map_of (request_inputs req) mid = None
         \<and> runtime_input (request_inputs req) mid = []
         \<and> execute_Input cfg (runtime_input (request_inputs req) mid)
               = (case map_of cfg ''default'' of
                    Some d \<Rightarrow> Inr (Value d)
                  | None \<Rightarrow> Inl MissingRuntimeInput)"
  using assms
  by (auto simp: executeWorkflow_def Let_def runtime_input_def execute_Input_def
      split: option.splits)

theorem executeWorkflow_posts_empty_inputs_witness:
  "executeWorkflow ''http://localhost:8001''
       (loadWorkflow (Some fan_in_workflow) empty_editor)
     = Some (HttpPostExecute ''http://localhost:8001/api/workflows/w1/execute'' [])
   \<and> execute_Input []
        (runtime_input
           (request_inputs (HttpPostExecute ''http://localhost:8001/api/workflows/w1/execute'' []))
           ''a'')
      = Inl MissingRuntimeInput"
proof -
  have run: "executeWorkflow ''http://localhost:8001''
       (loadWorkflow (Some fan_in_workflow) empty_editor)
     = Some (HttpPostExecute ''http://localhost:8001/api/workflows/w1/execute'' [])"
    by (simp add: executeWorkflow_def loadWorkflow_def fan_in_workflow_def API_def)
  have "execute_Input []
        (runtime_input
           (request_inputs (HttpPostExecute ''http://localhost:8001/api/workflows/w1/execute'' []))
           ''a'')
      = (case map_of ([] :: config) ''default'' of
           Some d \<Rightarrow> Inr (Value d)
         | None \<Rightarrow> Inl MissingRuntimeInput)"
    using executeWorkflow_posts_empty_inputs [OF run, where mid = "''a''" and cfg = "[]"]
    by blast
  then have "execute_Input []
        (runtime_input
           (request_inputs (HttpPostExecute ''http://localhost:8001/api/workflows/w1/execute'' []))
           ''a'')
      = Inl MissingRuntimeInput"
    by simp
  with run show ?thesis by blast
qed

section \<open>Properties of the engine\<close>

subsection \<open>Kahn's algorithm\<close>

lemma fold_min_Min: "fold min rs r = Min (set (r # rs))"
  by (simp only: Min.set_eq_fold)

lemma fold_min_in: "fold min rs (r::'a::linorder) \<in> set (r # rs)"
  unfolding fold_min_Min by (rule Min_in) simp_all

lemma fold_min_le: "x \<in> set (r # rs) \<Longrightarrow> fold min rs (r::'a::linorder) \<le> x"
  unfolding fold_min_Min by (rule Min_le) simp_all

declare kahn.simps [simp del]

lemma kahn_stuck: "filter (ready es remaining) remaining = [] \<Longrightarrow> kahn es remaining = ([], remaining)"
  by (subst kahn.simps) simp

lemma kahn_extract:
  "filter (ready es remaining) remaining = r # rs \<Longrightarrow>
   kahn es remaining =
     (fold min rs r # fst (kahn es (removeAll (fold min rs r) remaining)),
      snd (kahn es (removeAll (fold min rs r) remaining)))"
  by (subst kahn.simps) (simp add: Let_def split: prod.splits)

lemma ready_set_cong: "set xs = set ys \<Longrightarrow> ready es xs v = ready es ys v"
  by (simp add: ready_def)

lemma extracted_in_remaining:
  assumes "filter (ready es remaining) remaining = r # rs"
  shows "fold min rs (r::'a::linorder) \<in> set remaining"
proof -
  have "fold min rs r \<in> set (filter (ready es remaining) remaining)"
    using fold_min_in [of rs r] by (simp only: assms)
  then show ?thesis by simp
qed

lemma kahn_edges_cong:
  assumes "set es = set es'"
  shows "kahn es remaining = kahn es' remaining"
proof (induction "length remaining" arbitrary: remaining rule: less_induct)
  case less
  have "ready es' remaining = ready es remaining"
    by (rule ext) (simp add: ready_def assms)
  then have same: "filter (ready es' remaining) remaining = filter (ready es remaining) remaining"
    by simp
  show ?case
  proof (cases "filter (ready es remaining) remaining")
    case Nil
    then show ?thesis using same by (simp add: kahn_stuck)
  next
    case (Cons r rs)
    have "length (removeAll (fold min rs r) remaining) < length remaining"
      using extracted_in_remaining [OF Cons] by (rule length_removeAll_less)
    then have "kahn es (removeAll (fold min rs r) remaining)
             = kahn es' (removeAll (fold min rs r) remaining)"
      by (rule less.hyps)
    then show ?thesis
      using Cons same by (simp add: kahn_extract)
  qed
qed

lemma kahn_partition:
  "set (fst (kahn es remaining)) \<union> set (snd (kahn es remaining)) = set remaining
   \<and> set (fst (kahn es remaining)) \<inter> set (snd (kahn es remaining)) = {}
   \<and> distinct (fst (kahn es remaining))"
proof (induction es remaining rule: kahn.induct)
  case (1 es remaining)
  show ?case
  proof (cases "filter (ready es remaining) remaining")
    case Nil
    then show ?thesis by (simp add: kahn_stuck)
  next
    case (Cons r rs)
    let ?v = "fold min rs r"
    have vin: "?v \<in> set remaining" by (rule extracted_in_remaining [OF Cons])
    have ih: "set (fst (kahn es (removeAll ?v remaining))) \<union> set (snd (kahn es (removeAll ?v remaining))) = set (removeAll ?v remaining)
       \<and> set (fst (kahn es (removeAll ?v remaining))) \<inter> set (snd (kahn es (removeAll ?v remaining))) = {}
       \<and> distinct (fst (kahn es (removeAll ?v remaining)))"
      by (rule "1.IH" [OF Cons refl])
    show ?thesis
      using ih vin by (auto simp: kahn_extract [OF Cons])
  qed
qed

lemma kahn_stuck_not_ready:
  "filter (ready es (snd (kahn es remaining))) (snd (kahn es remaining)) = []"
proof (induction es remaining rule: kahn.induct)
  case (1 es remaining)
  show ?case
  proof (cases "filter (ready es remaining) remaining")
    case Nil
    then show ?thesis by (simp add: kahn_stuck)
  next
    case (Cons r rs)
    from "1.IH" [OF Cons refl] show ?thesis
      by (simp add: kahn_extract [OF Cons])
  qed
qed

lemma kahn_extracted_ready:
  "fst (kahn es remaining) = pre @ v # post \<Longrightarrow>
   ready es (v # post @ snd (kahn es remaining)) v
   \<and> (\<forall>u \<in> set post \<union> set (snd (kahn es remaining)).
         ready es (v # post @ snd (kahn es remaining)) u \<longrightarrow> v \<le> u)"
proof (induction es remaining arbitrary: pre rule: kahn.induct)
  case (1 es remaining)
  show ?case
  proof (cases "filter (ready es remaining) remaining")
    case Nil
    with "1.prems" show ?thesis by (simp add: kahn_stuck)
  next
    case (Cons r rs)
    let ?v = "fold min rs r"
    let ?k = "kahn es (removeAll ?v remaining)"
    have eq: "kahn es remaining = (?v # fst ?k, snd ?k)" by (rule kahn_extract [OF Cons])
    have part: "set (fst (kahn es remaining)) \<union> set (snd (kahn es remaining)) = set remaining"
      using kahn_partition [of es remaining] by blast
    show ?thesis
    proof (cases pre)
      case Nil
      with "1.prems" eq have v: "v = ?v" and post: "post = fst ?k" by auto
      have s: "set (v # post @ snd (kahn es remaining)) = set remaining"
        using part by (simp add: eq v post Un_assoc)
      have "?v \<in> set (filter (ready es remaining) remaining)"
        using fold_min_in [of rs r] by (simp only: Cons)
      then have r1: "ready es remaining v" by (simp add: v)
      have r2: "v \<le> u" if "u \<in> set post \<union> set (snd (kahn es remaining))"
        and "ready es remaining u" for u
      proof -
        from that(1) s have "u \<in> set remaining" by auto
        with that(2) have "u \<in> set (r # rs)" by (simp flip: Cons)
        then show ?thesis unfolding v by (rule fold_min_le)
      qed
      show ?thesis
        using r1 r2 by (simp only: ready_set_cong [OF s]) blast
    next
      case (Cons p pre')
      with "1.prems" eq have "fst ?k = pre' @ v # post" by auto
      from "1.IH" [OF \<open>filter (ready es remaining) remaining = r # rs\<close> refl this]
      show ?thesis by (simp add: eq)
    qed
  qed
qed

lemma kahn_acyclic_complete:
  assumes "acyclic (set es)"
  shows "snd (kahn es remaining) = []"
proof (rule ccontr)
  let ?S = "snd (kahn es remaining)"
  assume "?S \<noteq> []"
  then obtain x where x: "x \<in> set ?S" by (cases ?S) auto
  have "wf (set es)" using assms by (simp add: finite_acyclic_wf)
  from wfE_min [OF this x] obtain z where z: "z \<in> set ?S"
    and min: "\<And>y. (y, z) \<in> set es \<Longrightarrow> y \<notin> set ?S" by blast
  from min have "ready es ?S z" by (auto simp: ready_def)
  with z have "z \<in> set (filter (ready es ?S) ?S)" by simp
  then show False by (simp only: kahn_stuck_not_ready) simp
qed

lemma kahn_source_before:
  assumes ord: "fst (kahn es remaining) = pre @ v # post"
    and stuck: "snd (kahn es remaining) = []"
    and e: "(s, v) \<in> set es" and s: "s \<in> set remaining"
  shows "s \<in> set pre"
proof -
  from kahn_extracted_ready [OF ord] have "ready es (v # post @ snd (kahn es remaining)) v"
    by blast
  with e have "s \<notin> set (v # post)" by (auto simp: ready_def stuck)
  moreover from kahn_partition [of es remaining] s have "s \<in> set (pre @ v # post)"
    by (simp add: stuck flip: ord)
  ultimately show ?thesis by auto
qed

lemma takeWhile_first: "x \<notin> set pre \<Longrightarrow> takeWhile (\<lambda>y. y \<noteq> x) (pre @ x # post) = pre"
  by (induction pre) auto

lemma kahn_sound:
  assumes stuck: "snd (kahn es remaining) = []"
    and closed: "\<forall>(s, t) \<in> set es. s \<in> set remaining \<and> t \<in> set remaining"
  shows "acyclic (set es)"
proof -
  let ?order = "fst (kahn es remaining)"
  let ?rank = "\<lambda>x. length (takeWhile (\<lambda>y. y \<noteq> x) ?order)"
  have set_order: "set ?order = set remaining"
    using kahn_partition [of es remaining] by (simp add: stuck)
  have "set es \<subseteq> measure ?rank"
  proof
    fix e assume e: "e \<in> set es"
    obtain s t where st: "e = (s, t)" by (cases e)
    from e closed st have s: "s \<in> set remaining" and t: "t \<in> set remaining" by auto
    from t set_order have "t \<in> set ?order" by simp
    then obtain pre post where ord: "?order = pre @ t # post" and tn: "t \<notin> set pre"
      by (auto dest: split_list_first)
    from kahn_source_before [OF ord stuck _ s] e st have "s \<in> set pre" by simp
    then obtain p1 p2 where pre: "pre = p1 @ s # p2" and sn: "s \<notin> set p1"
      by (auto dest: split_list_first)
    have "?rank t = length pre" by (simp only: ord takeWhile_first [OF tn])
    moreover have "?order = p1 @ s # (p2 @ t # post)" by (simp add: ord pre)
    then have "?rank s = length p1" by (simp only: takeWhile_first [OF sn])
    ultimately show "e \<in> measure ?rank" by (simp add: st pre)
  qed
  then have "wf (set es)" by (rule wf_subset [OF wf_measure])
  then show ?thesis by (rule wf_acyclic)
qed

subsection \<open>The cycle that the check reports\<close>

lemma pred_in_Some: "pred_in es S v = Some p \<Longrightarrow> (p, v) \<in> set es \<and> p \<in> set S"
  by (auto simp: pred_in_def find_Some_iff in_set_conv_nth)

lemma pred_in_None: "pred_in es S v = None \<Longrightarrow> ready es S v"
  by (auto simp: pred_in_def find_None_iff ready_def)

lemma successively_take_cycle:
  assumes "successively P (v # path)" and "v \<in> set path"
  shows "successively P ((v # takeWhile (\<lambda>u. u \<noteq> v) path) @ [v])"
proof -
  from assms(2) obtain a b where path: "path = a @ v # b" and "v \<notin> set a"
    by (auto dest: split_list_first)
  then have tw: "takeWhile (\<lambda>u. u \<noteq> v) path = a" by (simp add: takeWhile_first)
  have "v # path = ((v # a) @ [v]) @ b" by (simp add: path)
  with assms(1) have "successively P (((v # a) @ [v]) @ b)" by simp
  then have "successively P ((v # a) @ [v])" by (simp only: successively_append_iff)
  then show ?thesis by (simp only: tw)
qed

lemma walk_back_cycle:
  assumes "\<forall>u \<in> set S. \<not> ready es S u"
    and "v \<in> set S" and "set path \<subseteq> set S" and "distinct path"
    and "successively (\<lambda>a b. (a, b) \<in> set es) (v # path)"
    and "card (set S) < length path + n"
  shows "is_cycle es (walk_back es S n path v) \<and> set (walk_back es S n path v) \<subseteq> set S"
  using assms(2-)
proof (induction n arbitrary: path v)
  case 0
  have "length path = card (set path)" using "0.prems"(3) by (simp add: distinct_card)
  also have "\<dots> \<le> card (set S)" using "0.prems"(2) by (simp add: card_mono)
  finally show ?case using "0.prems"(5) by simp
next
  case (Suc n)
  show ?case
  proof (cases "v \<in> set path")
    case True
    have "successively (\<lambda>a b. (a, b) \<in> set es) ((v # takeWhile (\<lambda>u. u \<noteq> v) path) @ [v])"
      using Suc.prems(4) True by (rule successively_take_cycle)
    moreover have "set (takeWhile (\<lambda>u. u \<noteq> v) path) \<subseteq> set S"
      using Suc.prems(2) set_takeWhileD by fastforce
    ultimately show ?thesis using True Suc.prems(1) by (simp add: is_cycle_def)
  next
    case False
    from assms(1) Suc.prems(1) have "\<not> ready es S v" by blast
    then obtain p where p: "pred_in es S v = Some p"
      by (cases "pred_in es S v") (auto dest: pred_in_None)
    from pred_in_Some [OF p] have e: "(p, v) \<in> set es" and pS: "p \<in> set S" by simp_all
    have "is_cycle es (walk_back es S n (v # path) p) \<and> set (walk_back es S n (v # path) p) \<subseteq> set S"
    proof (rule Suc.IH)
      show "p \<in> set S" by (rule pS)
      show "set (v # path) \<subseteq> set S" using Suc.prems(1,2) by simp
      show "distinct (v # path)" using False Suc.prems(3) by simp
      show "successively (\<lambda>a b. (a, b) \<in> set es) (p # v # path)" using e Suc.prems(4) by simp
      show "card (set S) < length (v # path) + n" using Suc.prems(5) by simp
    qed
    then show ?thesis using False p by simp
  qed
qed

lemma find_cycle_is_cycle:
  assumes "S \<noteq> []" and "filter (ready es S) S = []"
  shows "is_cycle es (find_cycle es S) \<and> set (find_cycle es S) \<subseteq> set S"
proof -
  from assms(1) obtain v rest where S: "S = v # rest" by (cases S) auto
  have nr: "\<forall>u \<in> set S. \<not> ready es S u" using assms(2) by (simp add: filter_empty_conv)
  have "is_cycle es (walk_back es S (Suc (length S)) [] v)
        \<and> set (walk_back es S (Suc (length S)) [] v) \<subseteq> set S"
  proof (rule walk_back_cycle [OF nr])
    show "v \<in> set S" by (simp add: S)
    show "card (set S) < length ([]::'a list) + Suc (length S)"
      using card_length [of S] by simp
  qed simp_all
  then show ?thesis by (simp add: find_cycle_def S)
qed

lemma successively_trancl:
  "successively (\<lambda>a b. (a, b) \<in> r) (x # xs) \<Longrightarrow> xs \<noteq> [] \<Longrightarrow> (x, last xs) \<in> r\<^sup>+"
proof (induction xs arbitrary: x)
  case Nil
  then show ?case by simp
next
  case (Cons y ys)
  show ?case
  proof (cases ys)
    case Nil
    with Cons.prems show ?thesis by simp
  next
    case (Cons z zs)
    with Cons.prems Cons.IH [of y] have "(x, y) \<in> r" and "(y, last ys) \<in> r\<^sup>+" by simp_all
    then show ?thesis using Cons by (simp add: trancl_into_trancl2)
  qed
qed

lemma is_cycle_not_acyclic: "is_cycle es cyc \<Longrightarrow> \<not> acyclic (set es)"
proof -
  assume c: "is_cycle es cyc"
  then obtain x xs where cyc: "cyc = x # xs" by (cases cyc) (auto simp: is_cycle_def)
  from c have "successively (\<lambda>a b. (a, b) \<in> set es) (x # (xs @ [x]))"
    by (simp add: is_cycle_def cyc)
  from successively_trancl [OF this] have "(x, x) \<in> (set es)\<^sup>+" by simp
  then show ?thesis by (auto simp: acyclic_def)
qed

subsection \<open>The graph that build returns\<close>

lemma build_nodes_Inr:
  "build_nodes reg cs ms = Inr g \<Longrightarrow>
   map gn_module g = ms
   \<and> (\<forall>n \<in> set g. \<exists>t. resolve reg (m_type (gn_module n)) = Inr t \<and> n = make_node cs (gn_module n) t)"
proof (induction ms arbitrary: g)
  case Nil
  then show ?case by simp
next
  case (Cons m ms)
  then show ?case
    by (auto split: sum.splits simp: make_node_def)
qed

lemma build_nodes_ids: "build_nodes reg cs ms = Inr g \<Longrightarrow> map node_id g = map m_id ms"
proof -
  assume "build_nodes reg cs ms = Inr g"
  then have "map gn_module g = ms" by (simp add: build_nodes_Inr)
  then have "map m_id (map gn_module g) = map m_id ms" by simp
  moreover have "node_id = m_id \<circ> gn_module" by (rule ext) (simp add: node_id_def)
  ultimately show ?thesis by simp
qed

lemma build_nodes_incoming:
  assumes "build_nodes reg cs ms = Inr g" and "n \<in> set g"
  shows "set (gn_incoming n) = {c \<in> set cs. c_target c = node_id n}"
proof -
  from build_nodes_Inr [OF assms(1)] assms(2)
  obtain t where "n = make_node cs (gn_module n) t" by blast
  then have "gn_incoming n = sort_key c_target_handle (filter (\<lambda>c. c_target c = m_id (gn_module n)) cs)"
    by (metis graph_node.select_convs(4) make_node_def)
  then show ?thesis by (auto simp: node_id_def)
qed

lemma build_nodes_all_resolve:
  "\<forall>m \<in> set ms. \<not> isl (resolve reg (m_type m)) \<Longrightarrow> \<exists>g. build_nodes reg cs ms = Inr g"
  by (induction ms) (auto split: sum.splits)

lemma build_nodes_edges:
  assumes b: "build_nodes reg cs ms = Inr g"
    and nd: "\<forall>c \<in> set cs. \<not> dangling (map m_id ms) c"
  shows "set (graph_edges g) = set (conn_edges cs)"
proof -
  have ids: "node_id ` set g = m_id ` set ms"
    using build_nodes_ids [OF b] by (metis set_map)
  have "set (graph_edges g) = {(c_source c, node_id n) | n c. n \<in> set g \<and> c \<in> set (gn_incoming n)}"
    by (auto simp: graph_edges_def)
  also have "\<dots> = {(c_source c, c_target c) | c. c \<in> set cs \<and> c_target c \<in> node_id ` set g}"
    using build_nodes_incoming [OF b] by fastforce
  also have "\<dots> = {(c_source c, c_target c) | c. c \<in> set cs}"
    using nd ids by (auto simp: dangling_def)
  also have "\<dots> = set (conn_edges cs)"
    by (auto simp: conn_edges_def)
  finally show ?thesis .
qed

text \<open>What a successful build establishes.\<close>

lemma build_Inr:
  assumes "build reg w = Inr g"
  shows "(\<forall>c \<in> set (w_connections w). \<not> dangling (map m_id (w_modules w)) c)
       \<and> build_nodes reg (w_connections w) (w_modules w) = Inr g
       \<and> (\<forall>c \<in> set (w_connections w). fan_in (w_connections w) c \<le> 1)
       \<and> snd (kahn (conn_edges (w_connections w)) (map m_id (w_modules w))) = []"
  using assms
  by (auto simp: build_def Let_def find_None_iff not_less
      split: option.splits sum.splits prod.splits list.splits)

lemma build_schedule:
  assumes "build reg w = Inr g"
  shows "schedule g = fst (kahn (conn_edges (w_connections w)) (map m_id (w_modules w)))"
proof -
  from build_Inr [OF assms]
  have nd: "\<forall>c \<in> set (w_connections w). \<not> dangling (map m_id (w_modules w)) c"
    and b: "build_nodes reg (w_connections w) (w_modules w) = Inr g" by blast+
  show ?thesis
    unfolding schedule_def build_nodes_ids [OF b]
    using kahn_edges_cong [OF build_nodes_edges [OF b nd]] by simp
qed


subsection \<open>One step of a run\<close>

lemma step_status:
  "ctx_status (step ai logic rt ctx n)
     = (ctx_status ctx)(node_id n \<mapsto> status_of (evaluate ai logic rt (ctx_outputs ctx) n))"
  by (simp add: step_def split: option.splits sum.splits module_error.splits)

lemma step_outputs:
  "ctx_outputs (step ai logic rt ctx n)
     = (case produced (evaluate ai logic rt (ctx_outputs ctx) n) of
          None \<Rightarrow> ctx_outputs ctx
        | Some out \<Rightarrow> (ctx_outputs ctx)(node_id n \<mapsto> out))"
  by (simp add: step_def split: option.splits sum.splits module_error.splits)

lemma step_invoked:
  "ctx_invoked (step ai logic rt ctx n)
     = ctx_invoked ctx @ (if invokes (evaluate ai logic rt (ctx_outputs ctx) n) then [node_id n] else [])"
  by (simp add: step_def split: option.splits sum.splits module_error.splits)

lemma resolve_conn_cong:
  "outs (c_source c) = outs' (c_source c) \<Longrightarrow> resolve_conn outs c = resolve_conn outs' c"
  by (simp add: resolve_conn_def)

lemma evaluate_cong:
  assumes "\<forall>c \<in> set (gn_incoming n). outs (c_source c) = outs' (c_source c)"
  shows "evaluate ai logic rt outs n = evaluate ai logic rt outs' n"
proof -
  have r: "resolve_conn outs c = resolve_conn outs' c" if "c \<in> set (gn_incoming n)" for c
    by (rule resolve_conn_cong) (use assms that in blast)
  have "map (\<lambda>c. case resolve_conn outs c of None \<Rightarrow> [] | Some v \<Rightarrow> [(c_target_handle c, v)])
            (gn_incoming n)
      = map (\<lambda>c. case resolve_conn outs' c of None \<Rightarrow> [] | Some v \<Rightarrow> [(c_target_handle c, v)])
            (gn_incoming n)"
    by (rule map_cong [OF refl]) (simp only: r)
  then have g: "gather rt outs n = gather rt outs' n"
    by (simp only: gather_def)
  have b: "(\<exists>c \<in> set (gn_incoming n). resolve_conn outs c = None)
         = (\<exists>c \<in> set (gn_incoming n). resolve_conn outs' c = None)"
    by (rule bex_cong [OF refl]) (simp only: r)
  show ?thesis by (simp only: evaluate_def g b)
qed

lemma sources_first_butlast: "sources_first g (ys @ [m]) \<Longrightarrow> sources_first g ys"
  unfolding sources_first_def
proof (intro allI impI)
  fix pre x post n c
  assume a: "\<forall>pre ma post n c. ys @ [m] = pre @ ma # post \<longrightarrow> find (\<lambda>n. node_id n = ma) g = Some n
        \<longrightarrow> c \<in> set (gn_incoming n) \<longrightarrow> c_source c \<in> set pre"
    and "ys = pre @ x # post" "find (\<lambda>n. node_id n = x) g = Some n" "c \<in> set (gn_incoming n)"
  then have "ys @ [m] = pre @ x # (post @ [m])" by simp
  with a \<open>find (\<lambda>n. node_id n = x) g = Some n\<close> \<open>c \<in> set (gn_incoming n)\<close>
  show "c_source c \<in> set pre" by blast
qed

lemma run_local:
  assumes "distinct order" and "sources_first g order"
    and "F = foldl (step_id ai logic rt g) empty_context order"
  shows "(\<forall>m n. m \<in> set order \<longrightarrow> find (\<lambda>n. node_id n = m) g = Some n \<longrightarrow>
            ctx_status F m = Some (status_of (evaluate ai logic rt (ctx_outputs F) n))
          \<and> ctx_outputs F m = produced (evaluate ai logic rt (ctx_outputs F) n)
          \<and> (m \<in> set (ctx_invoked F)) = invokes (evaluate ai logic rt (ctx_outputs F) n))
       \<and> (\<forall>m. m \<notin> set order \<or> find (\<lambda>n. node_id n = m) g = None \<longrightarrow>
            ctx_status F m = None \<and> ctx_outputs F m = None \<and> m \<notin> set (ctx_invoked F))"
    (is "?P order F")
  using assms
proof (induction order arbitrary: F rule: rev_induct)
  case Nil
  then show ?case by (simp add: empty_context_def)
next
  case (snoc x ys)
  let ?F' = "foldl (step_id ai logic rt g) empty_context ys"
  let ?F = "foldl (step_id ai logic rt g) empty_context (ys @ [x])"
  have FF: "F = ?F" by (rule snoc.prems(3))
  have dys: "distinct ys" and xn: "x \<notin> set ys" using snoc.prems(1) by simp_all
  have sf: "sources_first g ys" using snoc.prems(2) by (rule sources_first_butlast)
  note ih1 = snoc.IH [OF dys sf refl, THEN conjunct1, rule_format]
  note ih2 = snoc.IH [OF dys sf refl, THEN conjunct2, rule_format]
  have "?P (ys @ [x]) ?F"
  proof (cases "find (\<lambda>n. node_id n = x) g")
    case None
    then have same: "?F = ?F'" by (simp add: step_id_def)
    have p1: "ctx_status ?F' m = Some (status_of (evaluate ai logic rt (ctx_outputs ?F') n))
          \<and> ctx_outputs ?F' m = produced (evaluate ai logic rt (ctx_outputs ?F') n)
          \<and> (m \<in> set (ctx_invoked ?F')) = invokes (evaluate ai logic rt (ctx_outputs ?F') n)"
      if m: "m \<in> set (ys @ [x])" and n: "find (\<lambda>n. node_id n = m) g = Some n" for m n
    proof -
      from n None have "m \<noteq> x" by auto
      with m have "m \<in> set ys" by simp
      then show ?thesis using n by (rule ih1)
    qed
    have p2: "ctx_status ?F' m = None \<and> ctx_outputs ?F' m = None \<and> m \<notin> set (ctx_invoked ?F')"
      if "m \<notin> set (ys @ [x]) \<or> find (\<lambda>n. node_id n = m) g = None" for m
    proof -
      from that have "m \<notin> set ys \<or> find (\<lambda>n. node_id n = m) g = None" by auto
      then show ?thesis by (rule ih2)
    qed
    show ?thesis unfolding same
      apply (rule conjI)
       apply (intro allI impI)
       apply (rule p1; assumption)
      apply (intro allI impI)
      apply (rule p2; assumption)
      done
  next
    case (Some nx)
    then have idx: "node_id nx = x" by (auto simp: find_Some_iff)
    let ?r = "evaluate ai logic rt (ctx_outputs ?F') nx"
    let ?G = "step ai logic rt ?F' nx"
    have FG: "?F = ?G" by (simp add: step_id_def Some)
    have st: "ctx_status ?G = (ctx_status ?F')(x \<mapsto> status_of ?r)"
      by (simp only: step_status idx)
    have ou: "ctx_outputs ?G
        = (case produced ?r of None \<Rightarrow> ctx_outputs ?F' | Some out \<Rightarrow> (ctx_outputs ?F')(x \<mapsto> out))"
      by (simp only: step_outputs idx)
    have inv: "ctx_invoked ?G = ctx_invoked ?F' @ (if invokes ?r then [x] else [])"
      by (simp only: step_invoked idx)
    have x0: "ctx_status ?F' x = None \<and> ctx_outputs ?F' x = None \<and> x \<notin> set (ctx_invoked ?F')"
      by (rule ih2) (simp add: xn)
    have outs_other: "ctx_outputs ?G k = ctx_outputs ?F' k" if "k \<noteq> x" for k
      using that by (simp add: ou split: option.splits)
    have ev: "evaluate ai logic rt (ctx_outputs ?G) n = evaluate ai logic rt (ctx_outputs ?F') n"
      if "m \<in> set (ys @ [x])" "find (\<lambda>n. node_id n = m) g = Some n" for m n
    proof (rule evaluate_cong, rule ballI)
      fix c assume c: "c \<in> set (gn_incoming n)"
      from that(1) obtain pre post where sp: "ys @ [x] = pre @ m # post"
        by (auto dest: split_list)
      with snoc.prems(2) that(2) c have "c_source c \<in> set pre"
        unfolding sources_first_def by blast
      moreover have "x \<notin> set pre"
      proof (cases post rule: rev_cases)
        case Nil
        with sp have "pre = ys" by simp
        then show ?thesis using xn by simp
      next
        case (snoc post' z)
        with sp have "ys = pre @ m # post'" by simp
        then show ?thesis using xn by simp
      qed
      ultimately have "c_source c \<noteq> x" by auto
      then show "ctx_outputs ?G (c_source c) = ctx_outputs ?F' (c_source c)"
        by (rule outs_other)
    qed
    have part1: "ctx_status ?G m = Some (status_of (evaluate ai logic rt (ctx_outputs ?G) n))
          \<and> ctx_outputs ?G m = produced (evaluate ai logic rt (ctx_outputs ?G) n)
          \<and> (m \<in> set (ctx_invoked ?G)) = invokes (evaluate ai logic rt (ctx_outputs ?G) n)"
      if m: "m \<in> set (ys @ [x])" and n: "find (\<lambda>n. node_id n = m) g = Some n" for m n
    proof (cases "m = x")
      case True
      with n Some have nn: "n = nx" by simp
      have e: "evaluate ai logic rt (ctx_outputs ?G) nx = ?r"
        using ev [OF m n] by (simp only: nn)
      have 1: "ctx_status ?G x = Some (status_of ?r)" by (simp add: st)
      have 2: "ctx_outputs ?G x = produced ?r"
        using x0 by (cases "produced ?r") (simp_all add: ou)
      have 3: "(x \<in> set (ctx_invoked ?G)) = invokes ?r"
        using x0 by (simp add: inv)
      show ?thesis unfolding True nn e using 1 2 3 by (intro conjI)
    next
      case False
      with m have my: "m \<in> set ys" by simp
      from my n have i:
        "ctx_status ?F' m = Some (status_of (evaluate ai logic rt (ctx_outputs ?F') n))
          \<and> ctx_outputs ?F' m = produced (evaluate ai logic rt (ctx_outputs ?F') n)
          \<and> (m \<in> set (ctx_invoked ?F')) = invokes (evaluate ai logic rt (ctx_outputs ?F') n)"
        by (rule ih1)
      have 1: "ctx_status ?G m = ctx_status ?F' m" using False by (simp add: st)
      have 2: "ctx_outputs ?G m = ctx_outputs ?F' m" using False by (rule outs_other)
      have 3: "(m \<in> set (ctx_invoked ?G)) = (m \<in> set (ctx_invoked ?F'))"
        using False by (simp add: inv)
      show ?thesis unfolding ev [OF m n] 1 2 3 by (rule i)
    qed
    have part2: "ctx_status ?G m = None \<and> ctx_outputs ?G m = None \<and> m \<notin> set (ctx_invoked ?G)"
      if "m \<notin> set (ys @ [x]) \<or> find (\<lambda>n. node_id n = m) g = None" for m
    proof -
      from that Some have mx: "m \<noteq> x" by auto
      from that have "m \<notin> set ys \<or> find (\<lambda>n. node_id n = m) g = None" by auto
      then have i: "ctx_status ?F' m = None \<and> ctx_outputs ?F' m = None \<and> m \<notin> set (ctx_invoked ?F')"
        by (rule ih2)
      have 1: "ctx_status ?G m = ctx_status ?F' m" using mx by (simp add: st)
      have 2: "ctx_outputs ?G m = ctx_outputs ?F' m" using mx by (rule outs_other)
      have 3: "(m \<in> set (ctx_invoked ?G)) = (m \<in> set (ctx_invoked ?F'))"
        using mx by (simp add: inv)
      show ?thesis unfolding 1 2 3 by (rule i)
    qed
    show ?thesis unfolding FG
      apply (rule conjI)
       apply (intro allI impI)
       apply (rule part1; assumption)
      apply (intro allI impI)
      apply (rule part2; assumption)
      done
  qed
  then show ?case by (simp only: FF)
qed

subsection \<open>build on a workflow that passes the checks\<close>

lemma conn_edges_closed:
  assumes "\<forall>c \<in> set cs. \<not> dangling ids c"
  shows "\<forall>(s, t) \<in> set (conn_edges cs). s \<in> set ids \<and> t \<in> set ids"
  using assms by (auto simp: conn_edges_def dangling_def)

lemma build_passes:
  assumes "passes_checks reg w"
  shows "(\<exists>g. build reg w = Inr g
              \<and> snd (kahn (conn_edges (w_connections w)) (map m_id (w_modules w))) = [])
       \<or> (\<exists>s stuck. snd (kahn (conn_edges (w_connections w)) (map m_id (w_modules w))) = s # stuck
              \<and> build reg w = Inl (CycleDetectedError (find_cycle (conn_edges (w_connections w)) (s # stuck))))"
proof -
  let ?cs = "w_connections w" and ?ms = "w_modules w"
  from assms have nd: "find (dangling (map m_id ?ms)) ?cs = None"
    and res: "\<forall>m \<in> set ?ms. \<not> isl (resolve reg (m_type m))"
    and fi: "find (\<lambda>c. 1 < fan_in ?cs c) ?cs = None"
    by (auto simp: passes_checks_def find_None_iff not_less)
  from build_nodes_all_resolve [OF res] obtain g where g: "build_nodes reg ?cs ?ms = Inr g" by blast
  obtain order stuck where k: "kahn (conn_edges ?cs) (map m_id ?ms) = (order, stuck)"
    by (cases "kahn (conn_edges ?cs) (map m_id ?ms)")
  have b: "build reg w
      = (case stuck of
           [] \<Rightarrow> Inr g
         | s # stuck' \<Rightarrow> Inl (CycleDetectedError (find_cycle (conn_edges ?cs) (s # stuck'))))"
    by (simp only: build_def Let_def nd g fi k option.case sum.case prod.case)
  show ?thesis
  proof (cases stuck)
    case Nil
    then show ?thesis using b k by simp
  next
    case (Cons s stuck')
    then show ?thesis using b k by simp
  qed
qed

lemma build_Inr_acyclic:
  assumes "build reg w = Inr g"
  shows "acyclic (set (conn_edges (w_connections w)))"
proof -
  from build_Inr [OF assms]
  have nd: "\<forall>c \<in> set (w_connections w). \<not> dangling (map m_id (w_modules w)) c"
    and st: "snd (kahn (conn_edges (w_connections w)) (map m_id (w_modules w))) = []" by blast+
  show ?thesis by (rule kahn_sound [OF st conn_edges_closed [OF nd]])
qed

subsection \<open>build on a workflow with a cycle\<close>

text \<open>
  build returns no graph for a workflow whose connections contain a directed cycle, so
  execute returns build's error and not one executor is invoked. Which error that is
  depends on the other defects of the workflow; when the cycle is its only defect the
  error is CycleDetectedError, and the ids it reports are module ids of the workflow that
  form a directed cycle.
\<close>

lemma build_rejects_cycle:
  assumes cyc: "\<not> acyclic (set (conn_edges (w_connections w)))"
  shows "(\<exists>e. build reg w = Inl e \<and> execute_trace ai logic reg w rt = ([], Inl e))
       \<and> (passes_checks reg w \<longrightarrow>
            (\<exists>ids. build reg w = Inl (CycleDetectedError ids)
                 \<and> is_cycle (conn_edges (w_connections w)) ids
                 \<and> set ids \<subseteq> set (map m_id (w_modules w))))"
proof
  show "\<exists>e. build reg w = Inl e \<and> execute_trace ai logic reg w rt = ([], Inl e)"
  proof (cases "build reg w")
    case (Inl e)
    then show ?thesis by (simp add: execute_trace_def)
  next
    case (Inr g)
    from build_Inr_acyclic [OF Inr] cyc show ?thesis by contradiction
  qed
  show "passes_checks reg w \<longrightarrow>
            (\<exists>ids. build reg w = Inl (CycleDetectedError ids)
                 \<and> is_cycle (conn_edges (w_connections w)) ids
                 \<and> set ids \<subseteq> set (map m_id (w_modules w)))"
  proof
    assume pc: "passes_checks reg w"
    let ?es = "conn_edges (w_connections w)" and ?ids = "map m_id (w_modules w)"
    from build_passes [OF pc] show "\<exists>ids. build reg w = Inl (CycleDetectedError ids)
                 \<and> is_cycle ?es ids \<and> set ids \<subseteq> set ?ids"
    proof
      assume "\<exists>g. build reg w = Inr g \<and> snd (kahn ?es ?ids) = []"
      then obtain g where "build reg w = Inr g" by blast
      from build_Inr_acyclic [OF this] cyc show ?thesis by contradiction
    next
      assume "\<exists>s stuck. snd (kahn ?es ?ids) = s # stuck
              \<and> build reg w = Inl (CycleDetectedError (find_cycle ?es (s # stuck)))"
      then obtain s stuck where k: "snd (kahn ?es ?ids) = s # stuck"
        and b: "build reg w = Inl (CycleDetectedError (find_cycle ?es (s # stuck)))" by blast
      have "filter (ready ?es (s # stuck)) (s # stuck) = []"
        using kahn_stuck_not_ready [of ?es ?ids] by (simp only: k)
      from find_cycle_is_cycle [OF _ this]
      have c: "is_cycle ?es (find_cycle ?es (s # stuck))"
        and sub: "set (find_cycle ?es (s # stuck)) \<subseteq> set (s # stuck)" by simp_all
      from kahn_partition [of ?es ?ids] have "set (s # stuck) \<subseteq> set ?ids"
        by (auto simp: k)
      with b c sub show ?thesis by blast
    qed
  qed
qed


subsection \<open>The schedule of a built graph\<close>

lemma find_node:
  assumes "m \<in> set (map node_id g)"
  shows "\<exists>n. find (\<lambda>n. node_id n = m) g = Some n \<and> n \<in> set g \<and> node_id n = m"
proof (cases "find (\<lambda>n. node_id n = m) g")
  case None
  with assms show ?thesis by (auto simp: find_None_iff)
next
  case (Some n)
  then show ?thesis by (auto simp: find_Some_iff)
qed

lemma find_node_props: "find (\<lambda>n. node_id n = m) g = Some n \<Longrightarrow> n \<in> set g \<and> node_id n = m"
  by (auto simp: find_Some_iff)

lemma built_schedule_props:
  assumes b: "build reg w = Inr g"
  shows "set (schedule g) = set (map m_id (w_modules w))"
    and "distinct (schedule g)"
    and "sources_first g (schedule g)"
    and "map node_id g = map m_id (w_modules w)"
proof -
  let ?cs = "w_connections w" and ?ids = "map m_id (w_modules w)"
  let ?es = "conn_edges ?cs"
  from build_Inr [OF b]
  have nd: "\<forall>c \<in> set ?cs. \<not> dangling ?ids c"
    and bn: "build_nodes reg ?cs (w_modules w) = Inr g"
    and st: "snd (kahn ?es ?ids) = []" by blast+
  have sch: "schedule g = fst (kahn ?es ?ids)" by (rule build_schedule [OF b])
  from kahn_partition [of ?es ?ids] st
  show 1: "set (schedule g) = set ?ids" and 2: "distinct (schedule g)"
    by (simp_all add: sch)
  show 4: "map node_id g = ?ids" by (rule build_nodes_ids [OF bn])
  show "sources_first g (schedule g)"
    unfolding sources_first_def
  proof (intro allI impI)
    fix pre m post n c
    assume o: "schedule g = pre @ m # post"
      and f: "find (\<lambda>n. node_id n = m) g = Some n"
      and c: "c \<in> set (gn_incoming n)"
    from find_node_props [OF f] have n: "n \<in> set g" "node_id n = m" by simp_all
    from build_nodes_incoming [OF bn n(1)] c n(2) have cc: "c \<in> set ?cs" "c_target c = m" by auto
    then have e: "(c_source c, m) \<in> set ?es" by (auto simp: conn_edges_def)
    from nd cc(1) have s: "c_source c \<in> set ?ids" by (auto simp: dangling_def)
    from o have o': "fst (kahn ?es ?ids) = pre @ m # post" by (simp only: sch)
    show "c_source c \<in> set pre" by (rule kahn_source_before [OF o' st e s])
  qed
qed

lemma built_incoming:
  assumes b: "build reg w = Inr g" and f: "find (\<lambda>n. node_id n = m) g = Some n"
  shows "set (gn_incoming n) = {c \<in> set (w_connections w). c_target c = m}"
proof -
  from build_Inr [OF b] have bn: "build_nodes reg (w_connections w) (w_modules w) = Inr g" by blast
  from find_node_props [OF f] build_nodes_incoming [OF bn] show ?thesis by auto
qed

lemma takeWhile_filter:
  "P b \<Longrightarrow> takeWhile (\<lambda>y. y \<noteq> b) (filter P xs) = filter P (takeWhile (\<lambda>y. y \<noteq> b) xs)"
  by (induction xs) auto

lemma before_filter: "before xs a b \<Longrightarrow> P a \<Longrightarrow> P b \<Longrightarrow> before (filter P xs) a b"
  by (simp add: before_def takeWhile_filter)

lemma before_split:
  assumes "xs = pre @ b # post" and "a \<in> set pre" and "b \<notin> set pre"
  shows "before xs a b"
  using assms by (simp add: before_def takeWhile_first)

subsection \<open>The run of a built graph\<close>

lemma step_id_invoked:
  "\<exists>bl. ctx_invoked (step_id ai logic rt g ctx m) = ctx_invoked ctx @ (if bl then [m] else [])"
proof (cases "find (\<lambda>n. node_id n = m) g")
  case None
  then have "ctx_invoked (step_id ai logic rt g ctx m) = ctx_invoked ctx @ (if False then [m] else [])"
    by (simp add: step_id_def)
  then show ?thesis by blast
next
  case (Some n)
  then have "node_id n = m" by (auto simp: find_Some_iff)
  then have "ctx_invoked (step_id ai logic rt g ctx m)
      = ctx_invoked ctx @ (if invokes (evaluate ai logic rt (ctx_outputs ctx) n) then [m] else [])"
    by (simp add: step_id_def Some step_invoked)
  then show ?thesis by blast
qed

lemma foldl_invoked_filter:
  "distinct xs \<Longrightarrow>
   \<exists>P. ctx_invoked (foldl (step_id ai logic rt g) ctx xs) = ctx_invoked ctx @ filter P xs"
proof (induction xs arbitrary: ctx)
  case Nil
  show ?case by simp
next
  case (Cons x xs)
  from step_id_invoked [of ai logic rt g ctx x] obtain bl where
    b: "ctx_invoked (step_id ai logic rt g ctx x) = ctx_invoked ctx @ (if bl then [x] else [])" by blast
  from Cons.prems have d: "distinct xs" and xn: "x \<notin> set xs" by simp_all
  from Cons.IH [OF d, of "step_id ai logic rt g ctx x"] obtain P where
    P: "ctx_invoked (foldl (step_id ai logic rt g) (step_id ai logic rt g ctx x) xs)
        = ctx_invoked (step_id ai logic rt g ctx x) @ filter P xs" by blast
  let ?Q = "\<lambda>m. if m = x then bl else P m"
  have "filter ?Q xs = filter P xs" using xn by (auto intro: filter_cong)
  then have "ctx_invoked (foldl (step_id ai logic rt g) ctx (x # xs))
      = ctx_invoked ctx @ filter ?Q (x # xs)"
    by (simp add: P b)
  then show ?case by blast
qed

lemma run_invoked_filter:
  assumes "distinct (schedule g)"
  shows "ctx_invoked (run_context ai logic g rt)
       = filter (\<lambda>m. m \<in> set (ctx_invoked (run_context ai logic g rt))) (schedule g)"
proof -
  from foldl_invoked_filter [OF assms, of ai logic rt g empty_context] obtain P where
    P: "ctx_invoked (run_context ai logic g rt) = filter P (schedule g)"
    by (auto simp: run_context_def empty_context_def)
  have "filter (\<lambda>m. m \<in> set (filter P (schedule g))) (schedule g) = filter P (schedule g)"
    by (rule filter_cong) auto
  then show ?thesis by (simp only: P)
qed

lemma run_status_dom:
  "dom (ctx_status (foldl (step_id ai logic rt g) ctx xs))
     = dom (ctx_status ctx) \<union> {m \<in> set xs. m \<in> set (map node_id g)}"
proof (induction xs arbitrary: ctx)
  case Nil
  show ?case by simp
next
  case (Cons x xs)
  have "dom (ctx_status (step_id ai logic rt g ctx x))
      = dom (ctx_status ctx) \<union> (if x \<in> set (map node_id g) then {x} else {})"
  proof (cases "find (\<lambda>n. node_id n = x) g")
    case None
    then have "x \<notin> set (map node_id g)" by (auto simp: find_None_iff)
    then show ?thesis by (simp add: step_id_def None)
  next
    case (Some n)
    then have "node_id n = x" "n \<in> set g" by (auto simp: find_Some_iff)
    then have "x \<in> set (map node_id g)" by auto
    then show ?thesis using \<open>node_id n = x\<close> by (simp add: step_id_def Some step_status)
  qed
  then show ?case by (auto simp: Cons.IH)
qed


subsection \<open>Skip propagation\<close>

lemma conn_edge_conn:
  "(s, t) \<in> set (conn_edges cs) \<longleftrightarrow> (\<exists>c \<in> set cs. c_source c = s \<and> c_target c = t)"
  by (auto simp: conn_edges_def)

text \<open>The final context of the run of a built graph, module by module.\<close>

lemma built_run_local:
  assumes b: "build reg w = Inr g" and m: "m \<in> set (map m_id (w_modules w))"
  shows "\<exists>n. find (\<lambda>n. node_id n = m) g = Some n
          \<and> set (gn_incoming n) = {c \<in> set (w_connections w). c_target c = m}
          \<and> ctx_status (run_context ai logic g rt) m
              = Some (status_of (evaluate ai logic rt (ctx_outputs (run_context ai logic g rt)) n))
          \<and> ctx_outputs (run_context ai logic g rt) m
              = produced (evaluate ai logic rt (ctx_outputs (run_context ai logic g rt)) n)
          \<and> (m \<in> set (ctx_invoked (run_context ai logic g rt)))
              = invokes (evaluate ai logic rt (ctx_outputs (run_context ai logic g rt)) n)"
proof -
  note p = built_schedule_props [OF b]
  from m p(4) have "m \<in> set (map node_id g)" by simp
  from find_node [OF this] obtain n where n: "find (\<lambda>n. node_id n = m) g = Some n" by blast
  from m p(1) have mo: "m \<in> set (schedule g)" by simp
  note rl = run_local [OF p(2) p(3), of "run_context ai logic g rt" ai logic rt,
      unfolded run_context_def, OF refl, THEN conjunct1, rule_format, OF mo n,
      folded run_context_def]
  from rl built_incoming [OF b n] n show ?thesis by blast
qed


text \<open>A module without an output starves every module it is connected to.\<close>

lemma no_output_skips_target:
  assumes b: "build reg w = Inr g"
    and c: "c \<in> set (w_connections w)"
    and o: "resolve_conn (ctx_outputs (run_context ai logic g rt)) c = None"
  shows "ctx_status (run_context ai logic g rt) (c_target c) = Some (Skipped upstreamFailure)
       \<and> ctx_outputs (run_context ai logic g rt) (c_target c) = None
       \<and> c_target c \<notin> set (ctx_invoked (run_context ai logic g rt))"
proof -
  let ?F = "run_context ai logic g rt"
  from build_Inr [OF b] c have "\<not> dangling (map m_id (w_modules w)) c" by blast
  then have t: "c_target c \<in> set (map m_id (w_modules w))" by (simp add: dangling_def)
  from built_run_local [OF b t, of ai logic rt] obtain n where
    inc: "set (gn_incoming n) = {c' \<in> set (w_connections w). c_target c' = c_target c}"
    and st: "ctx_status ?F (c_target c) = Some (status_of (evaluate ai logic rt (ctx_outputs ?F) n))"
    and ou: "ctx_outputs ?F (c_target c) = produced (evaluate ai logic rt (ctx_outputs ?F) n)"
    and iv: "(c_target c \<in> set (ctx_invoked ?F)) = invokes (evaluate ai logic rt (ctx_outputs ?F) n)"
    by blast
  from inc c have "c \<in> set (gn_incoming n)" by simp
  with o have "evaluate ai logic rt (ctx_outputs ?F) n = None"
    by (auto simp: evaluate_def)
  with st ou iv show ?thesis by simp
qed








subsection \<open>The example workflows\<close>

lemmas example_defs =
  input_type_def output_type_def logic_type_def catalog_def plain_module_def wire_def
  disjoint_workflow_def cyclic_workflow_def branching_workflow_def

lemmas build_defs =
  build_def Let_def dangling_def resolve_def fan_in_def conn_edges_def ready_def kahn.simps
  find_cycle_def pred_in_def

lemmas run_defs =
  run_context_def schedule_def graph_edges_def node_id_def step_id_def step_def evaluate_def
  empty_context_def resolve_conn_def gather_def executorFor_def execute_Input_def
  execute_Output_def runtime_input_def make_node_def validate_def ready_def kahn.simps

lemma build_disjoint: "build catalog disjoint_workflow = Inr disjoint_graph"
  by (simp add: build_defs example_defs disjoint_graph_def)

lemma passes_disjoint: "passes_checks catalog disjoint_workflow"
  by (simp add: passes_checks_def dangling_def resolve_def fan_in_def example_defs)

lemma schedule_disjoint: "schedule disjoint_graph = [''A'', ''B'', ''C'', ''D'']"
  by (simp add: disjoint_graph_def run_defs example_defs)


lemma build_cyclic: "build catalog cyclic_workflow = Inl (CycleDetectedError [''B'', ''C''])"
  by (simp add: build_defs example_defs)

lemma run_disjoint:
  "ctx_invoked (run_context no_provider always_yes disjoint_graph [(''C'', JStr ''hello'')])
     = [''A'', ''C'', ''D'']"
  "ctx_status (run_context no_provider always_yes disjoint_graph [(''C'', JStr ''hello'')]) ''A''
     = Some (Failed (ExecutorFailure MissingRuntimeInput))"
  "ctx_status (run_context no_provider always_yes disjoint_graph [(''C'', JStr ''hello'')]) ''B''
     = Some (Skipped upstreamFailure)"
  "ctx_status (run_context no_provider always_yes disjoint_graph [(''C'', JStr ''hello'')]) ''C''
     = Some Succeeded"
  "ctx_status (run_context no_provider always_yes disjoint_graph [(''C'', JStr ''hello'')]) ''D''
     = Some Succeeded"
  "ctx_outputs (run_context no_provider always_yes disjoint_graph [(''C'', JStr ''hello'')]) ''D''
     = Some (Value (JStr ''hello''))"
  by (simp_all add: disjoint_graph_def run_defs example_defs)



subsection \<open>The claims about the engine\<close>

text \<open>
  C1. The Scheduler's order. For every workflow that passes the structural checks of
  build and whose connection graph is acyclic, build returns a graph, and the order in
  which run processes its modules contains every module exactly once; for every
  connection the source comes before the target; whenever a module is taken, it has the
  least id among all modules not yet taken whose sources have all been taken (the ready
  ones). The executors are invoked in this order: the list of invocations is the
  order restricted to the modules that are executed, and for every connection whose
  target is executed the source was executed before it.
\<close>

theorem schedule_topological_least_id_first:
  assumes pc: "passes_checks reg w"
    and ac: "acyclic (set (conn_edges (w_connections w)))"
  shows "\<exists>g. build reg w = Inr g
    \<and> set (schedule g) = set (map m_id (w_modules w))
    \<and> distinct (schedule g)
    \<and> (\<forall>c \<in> set (w_connections w). before (schedule g) (c_source c) (c_target c))
    \<and> (\<forall>pre v post u. schedule g = pre @ v # post \<longrightarrow> u \<in> set post \<longrightarrow>
          (\<forall>c \<in> set (w_connections w). c_target c = u \<longrightarrow> c_source c \<in> set pre) \<longrightarrow> v \<le> u)
    \<and> ctx_invoked (run_context ai logic g rt)
        = filter (\<lambda>m. m \<in> set (ctx_invoked (run_context ai logic g rt))) (schedule g)
    \<and> (\<forall>c \<in> set (w_connections w).
          c_target c \<in> set (ctx_invoked (run_context ai logic g rt)) \<longrightarrow>
          before (ctx_invoked (run_context ai logic g rt)) (c_source c) (c_target c))"
proof -
  let ?cs = "w_connections w" and ?ids = "map m_id (w_modules w)"
  let ?es = "conn_edges ?cs"
  have st: "snd (kahn ?es ?ids) = []" by (rule kahn_acyclic_complete [OF ac])
  with build_passes [OF pc] obtain g where b: "build reg w = Inr g" by auto
  let ?F = "run_context ai logic g rt"
  note p = built_schedule_props [OF b]
  have sch: "schedule g = fst (kahn ?es ?ids)" by (rule build_schedule [OF b])
  from build_Inr [OF b] have nd: "\<forall>c \<in> set ?cs. \<not> dangling ?ids c" by blast
  have bef: "before (schedule g) (c_source c) (c_target c)" if c: "c \<in> set ?cs" for c
  proof -
    from nd c have s: "c_source c \<in> set ?ids" and t: "c_target c \<in> set ?ids"
      by (auto simp: dangling_def)
    from t p(1) have "c_target c \<in> set (schedule g)" by simp
    then obtain pre post where o: "schedule g = pre @ c_target c # post"
      and tn: "c_target c \<notin> set pre" by (auto dest: split_list_first)
    from o have o': "fst (kahn ?es ?ids) = pre @ c_target c # post" by (simp only: sch)
    have e: "(c_source c, c_target c) \<in> set ?es" using c by (auto simp: conn_edge_conn)
    from kahn_source_before [OF o' st e s] have "c_source c \<in> set pre" .
    from before_split [OF o this tn] show ?thesis .
  qed
  have least: "v \<le> u" if o: "schedule g = pre @ v # post" and u: "u \<in> set post"
    and src: "\<forall>c \<in> set ?cs. c_target c = u \<longrightarrow> c_source c \<in> set pre" for pre v post u
  proof -
    from o have o': "fst (kahn ?es ?ids) = pre @ v # post" by (simp only: sch)
    from p(2) o have dis: "set pre \<inter> set (v # post) = {}" by auto
    have "s \<notin> set (v # post)" if "(s, u) \<in> set ?es" for s
    proof -
      from that obtain c where "c \<in> set ?cs" "c_source c = s" "c_target c = u"
        by (auto simp: conn_edge_conn)
      with src have "s \<in> set pre" by blast
      with dis show ?thesis by blast
    qed
    then have "ready ?es (v # post @ snd (kahn ?es ?ids)) u"
      unfolding ready_def st by auto
    with kahn_extracted_ready [OF o'] u show ?thesis by blast
  qed
  have tr: "ctx_invoked ?F = filter (\<lambda>m. m \<in> set (ctx_invoked ?F)) (schedule g)"
    by (rule run_invoked_filter [OF p(2)])
  have trbef: "before (ctx_invoked ?F) (c_source c) (c_target c)"
    if c: "c \<in> set ?cs" and t: "c_target c \<in> set (ctx_invoked ?F)" for c
  proof -
    have "resolve_conn (ctx_outputs ?F) c \<noteq> None"
      using no_output_skips_target [OF b c, of ai logic rt] t by blast
    then have so: "ctx_outputs ?F (c_source c) \<noteq> None"
      by (auto simp: resolve_conn_def split: option.splits)
    from nd c have s: "c_source c \<in> set ?ids" by (auto simp: dangling_def)
    from built_run_local [OF b s, of ai logic rt] obtain n where
      ou: "ctx_outputs ?F (c_source c) = produced (evaluate ai logic rt (ctx_outputs ?F) n)"
      and iv: "(c_source c \<in> set (ctx_invoked ?F)) = invokes (evaluate ai logic rt (ctx_outputs ?F) n)"
      by blast
    from so ou iv have "c_source c \<in> set (ctx_invoked ?F)"
      by (cases "evaluate ai logic rt (ctx_outputs ?F) n" rule: invokes.cases) auto
    from before_filter [OF bef [OF c], of "\<lambda>m. m \<in> set (ctx_invoked ?F)", OF this t]
    show ?thesis by (simp only: tr [symmetric])
  qed
  from b p(1) p(2) bef least tr trbef show ?thesis by blast
qed


lemma acyclic_disjoint: "acyclic (set (conn_edges (w_connections disjoint_workflow)))"
proof (rule kahn_sound)
  show "snd (kahn (conn_edges (w_connections disjoint_workflow))
               (map m_id (w_modules disjoint_workflow))) = []"
    by (simp add: conn_edges_def ready_def kahn.simps example_defs)
  show "\<forall>(s, t) \<in> set (conn_edges (w_connections disjoint_workflow)).
          s \<in> set (map m_id (w_modules disjoint_workflow))
          \<and> t \<in> set (map m_id (w_modules disjoint_workflow))"
    by (simp add: conn_edges_def example_defs)
qed

theorem schedule_topological_least_id_first_witness:
  "passes_checks catalog disjoint_workflow
   \<and> acyclic (set (conn_edges (w_connections disjoint_workflow)))
   \<and> (\<exists>g. build catalog disjoint_workflow = Inr g
          \<and> schedule g = [''A'', ''B'', ''C'', ''D'']
          \<and> distinct (schedule g)
          \<and> (\<forall>c \<in> set (w_connections disjoint_workflow).
                before (schedule g) (c_source c) (c_target c))
          \<and> ctx_invoked (run_context no_provider always_yes g [(''C'', JStr ''hello'')])
               = [''A'', ''C'', ''D''])"
proof -
  from schedule_topological_least_id_first [OF passes_disjoint acyclic_disjoint,
      of no_provider always_yes "[(''C'', JStr ''hello'')]"]
  obtain g where g: "build catalog disjoint_workflow = Inr g"
    and d: "distinct (schedule g)"
    and b: "\<forall>c \<in> set (w_connections disjoint_workflow).
                before (schedule g) (c_source c) (c_target c)"
    by blast
  from g build_disjoint have "g = disjoint_graph" by simp
  with g d b schedule_disjoint run_disjoint(1) passes_disjoint acyclic_disjoint
  show ?thesis by blast
qed





text \<open>
  C4. execute always returns a RunResult. For every workflow that passes build, execute
  returns a RunResult, not an error: its status map has exactly the module ids of the
  workflow as keys; its outputs are keyed by Output modules only, so they are empty
  when the workflow has no Output module, and also when no Output module succeeded.
\<close>

theorem execute_returns_run_result:
  assumes b: "build reg w = Inr g"
  shows "\<exists>r. execute ai logic reg w rt = Inr r
     \<and> dom (rr_statuses r) = set (map m_id (w_modules w))
     \<and> dom (rr_outputs r) \<subseteq> {node_id n | n. n \<in> set g \<and> mtype_category (gn_type n) = Output}
     \<and> ((\<forall>n \<in> set g. mtype_category (gn_type n) \<noteq> Output) \<longrightarrow> rr_outputs r = Map.empty)
     \<and> ((\<forall>n \<in> set g. mtype_category (gn_type n) = Output \<longrightarrow>
            rr_statuses r (node_id n) \<noteq> Some Succeeded) \<longrightarrow> rr_outputs r = Map.empty)"
proof -
  let ?F = "run_context ai logic g rt"
  let ?r = "result_of g ?F"
  note p = built_schedule_props [OF b]
  have ex: "execute ai logic reg w rt = Inr ?r"
    by (simp add: execute_def execute_trace_def b Let_def)
  have "dom (ctx_status ?F) = {m \<in> set (schedule g). m \<in> set (map node_id g)}"
    unfolding run_context_def run_status_dom by (simp add: empty_context_def)
  then have st: "dom (rr_statuses ?r) = set (map m_id (w_modules w))"
    using p(1) p(4) by (auto simp: result_of_def)
  have out: "\<exists>n. n \<in> set g \<and> node_id n = m \<and> mtype_category (gn_type n) = Output
                \<and> ctx_outputs ?F m \<noteq> None"
    if nn: "rr_outputs ?r m \<noteq> None" for m
  proof (cases "find (\<lambda>n. node_id n = m) g")
    case None
    with nn show ?thesis by (simp add: result_of_def)
  next
    case (Some n)
    with nn have "mtype_category (gn_type n) = Output" and "ctx_outputs ?F m \<noteq> None"
      by (auto simp: result_of_def split: if_splits)
    with find_node_props [OF Some] show ?thesis by blast
  qed
  have o1: "dom (rr_outputs ?r) \<subseteq> {node_id n | n. n \<in> set g \<and> mtype_category (gn_type n) = Output}"
    using out by (auto simp: dom_def) 
  have o2: "rr_outputs ?r = Map.empty" if "\<forall>n \<in> set g. mtype_category (gn_type n) \<noteq> Output"
  proof (rule ext)
    fix m show "rr_outputs ?r m = None" using out [of m] that by blast
  qed
  have o3: "rr_outputs ?r = Map.empty"
    if a: "\<forall>n \<in> set g. mtype_category (gn_type n) = Output \<longrightarrow>
            rr_statuses ?r (node_id n) \<noteq> Some Succeeded"
  proof (rule ext)
    fix m
    show "rr_outputs ?r m = None"
    proof (rule ccontr)
      assume "rr_outputs ?r m \<noteq> None"
      from out [OF this] obtain n where n: "n \<in> set g" "node_id n = m"
        "mtype_category (gn_type n) = Output" and o: "ctx_outputs ?F m \<noteq> None" by blast
      from a n have ns: "ctx_status ?F m \<noteq> Some Succeeded" by (auto simp: result_of_def)
      from n p(4) have "m \<in> set (map m_id (w_modules w))" by (metis image_eqI set_map)
      from built_run_local [OF b this, of ai logic rt] obtain n' where
        "ctx_status ?F m = Some (status_of (evaluate ai logic rt (ctx_outputs ?F) n'))"
        "ctx_outputs ?F m = produced (evaluate ai logic rt (ctx_outputs ?F) n')" by blast
      with ns o show False
        by (cases "evaluate ai logic rt (ctx_outputs ?F) n'" rule: status_of.cases) auto
    qed
  qed
  from ex st o1 o2 o3 show ?thesis by blast
qed

lemma build_input_only:
  "build catalog input_only_workflow
     = Inr [make_node [] (plain_module ''A'' ''text-input'') input_type]"
  by (simp add: build_defs example_defs input_only_workflow_def)

theorem execute_returns_run_result_witness:
  "(\<exists>r. execute no_provider always_yes catalog disjoint_workflow [(''C'', JStr ''hello'')] = Inr r
        \<and> dom (rr_statuses r) = {''A'', ''B'', ''C'', ''D''})
   \<and> (\<exists>r. execute no_provider always_yes catalog input_only_workflow [] = Inr r
        \<and> dom (rr_statuses r) = {''A''}
        \<and> rr_outputs r = Map.empty)"
proof -
  from execute_returns_run_result [OF build_disjoint, of no_provider always_yes "[(''C'', JStr ''hello'')]"]
  obtain r where "execute no_provider always_yes catalog disjoint_workflow [(''C'', JStr ''hello'')] = Inr r"
    and "dom (rr_statuses r) = set (map m_id (w_modules disjoint_workflow))" by blast
  moreover have "set (map m_id (w_modules disjoint_workflow)) = {''A'', ''B'', ''C'', ''D''}"
    by (auto simp: example_defs)
  ultimately have 1: "\<exists>r. execute no_provider always_yes catalog disjoint_workflow [(''C'', JStr ''hello'')] = Inr r
        \<and> dom (rr_statuses r) = {''A'', ''B'', ''C'', ''D''}" by auto
  from execute_returns_run_result [OF build_input_only, of no_provider always_yes "[]"]
  obtain r' where r': "execute no_provider always_yes catalog input_only_workflow [] = Inr r'"
    and d: "dom (rr_statuses r') = set (map m_id (w_modules input_only_workflow))"
    and e: "(\<forall>n \<in> set [make_node [] (plain_module ''A'' ''text-input'') input_type].
               mtype_category (gn_type n) \<noteq> Output) \<longrightarrow> rr_outputs r' = Map.empty"
    by blast
  have "rr_outputs r' = Map.empty"
    using e by (simp add: make_node_def input_type_def)
  moreover have "set (map m_id (w_modules input_only_workflow)) = {''A''}"
    by (simp add: input_only_workflow_def plain_module_def)
  ultimately have 2: "\<exists>r. execute no_provider always_yes catalog input_only_workflow [] = Inr r
        \<and> dom (rr_statuses r) = {''A''} \<and> rr_outputs r = Map.empty"
    using r' d by auto
  from 1 2 show ?thesis by blast
qed

end
